theory Spec2Isabelle
  imports Main "HOL-Library.AList"
begin

section \<open>JavaScript values and the platform's JSON codec\<close>

text \<open>
  The helper stores arbitrary JavaScript values. The values the model carries are the
  JSON data model (null, booleans, numbers, strings, arrays, objects) together with
  \<open>undefined\<close> and two kinds of value that \<open>JSON.stringify\<close> refuses: a BigInt, and an
  object graph that reaches itself (\<open>JCircular\<close>, an opaque leaf, since a cyclic graph is
  not a tree). Numbers are integers: JavaScript's doubles that are not integers (and
  \<open>NaN\<close>, the infinities, the negative zero) are outside the model. An object is the
  list of its own properties, with pairwise different keys in an actual object, in the
  order in which they were created (the platform enumerates integer-like keys first; no
  statement below depends on the order). Strings are lists of 8-bit characters.
\<close>

datatype jsval =
    JUndefined
  | JNull
  | JBool bool
  | JNum int
  | JStr string
  | JArr "jsval list"
  | JObj "(string \<times> jsval) list"
  | JBigInt int
  | JCircular

subsection \<open>\<open>JSON.stringify\<close>\<close>

definition digit_char :: "nat \<Rightarrow> char" where
  "digit_char d = char_of (48 + d)"

fun digits :: "nat \<Rightarrow> string" where
  "digits n = (if n < 10 then [digit_char n] else digits (n div 10) @ [digit_char (n mod 10)])"

declare digits.simps [simp del]

definition number_text :: "int \<Rightarrow> string" where
  "number_text i = (if i < 0 then CHR ''-'' # digits (nat (- i)) else digits (nat i))"

definition hex_char :: "nat \<Rightarrow> char" where
  "hex_char d = (if d < 10 then char_of (48 + d) else char_of (87 + d))"

text \<open>
  QuoteJSONString: the quotation mark and the backslash are escaped, the control
  characters below U+0020 are written with their short escape or as \<open>\u00xx\<close>, every
  other character stands for itself.
\<close>

definition quote_char :: "char \<Rightarrow> string" where
  "quote_char c =
     (if c = CHR 0x22 then [CHR 0x5C, CHR 0x22]
      else if c = CHR 0x5C then [CHR 0x5C, CHR 0x5C]
      else if c = CHR 0x08 then [CHR 0x5C, CHR ''b'']
      else if c = CHR 0x0C then [CHR 0x5C, CHR ''f'']
      else if c = CHR 0x0A then [CHR 0x5C, CHR ''n'']
      else if c = CHR 0x0D then [CHR 0x5C, CHR ''r'']
      else if c = CHR 0x09 then [CHR 0x5C, CHR ''t'']
      else if (of_char c :: nat) < 32
        then [CHR 0x5C, CHR ''u'', CHR ''0'', CHR ''0'',
              hex_char (of_char c div 16), hex_char (of_char c mod 16)]
      else [c])"

definition quote :: "string \<Rightarrow> string" where
  "quote s = CHR 0x22 # concat (map quote_char s) @ [CHR 0x22]"

fun commas :: "string list \<Rightarrow> string" where
  "commas [] = []"
| "commas [t] = t"
| "commas (t # u # us) = t @ CHR '','' # commas (u # us)"

text \<open>
  \<open>JSON.stringify\<close> throws a TypeError when the value holds a BigInt or a cycle anywhere.
\<close>

fun throws :: "jsval \<Rightarrow> bool" where
  "throws (JBigInt n) = True"
| "throws JCircular = True"
| "throws (JArr vs) = (\<exists>v \<in> set vs. throws v)"
| "throws (JObj ps) = (\<exists>p \<in> set ps. throws (snd p))"
| "throws _ = False"

text \<open>
  The text of a value that is not \<open>undefined\<close> and does not throw. Inside an array
  \<open>undefined\<close> is written \<open>null\<close>; a property whose value is \<open>undefined\<close> is left out.
\<close>

fun json_text :: "jsval \<Rightarrow> string" where
  "json_text JNull = ''null''"
| "json_text (JBool b) = (if b then ''true'' else ''false'')"
| "json_text (JNum i) = number_text i"
| "json_text (JStr s) = quote s"
| "json_text (JArr vs) =
     CHR ''['' # commas (map (\<lambda>v. if v = JUndefined then ''null'' else json_text v) vs) @ '']''"
| "json_text (JObj ps) =
     CHR ''{'' # commas (map (\<lambda>p. quote (fst p) @ CHR '':'' # json_text (snd p))
                          (filter (\<lambda>p. snd p \<noteq> JUndefined) ps)) @ ''}''"
| "json_text _ = []"

text \<open>
  The three outcomes of \<open>JSON.stringify(value)\<close>: it throws, it returns \<open>undefined\<close>
  (for \<open>undefined\<close> itself), or it returns the text.
\<close>

datatype stringified = Throws | NoText | Text string

definition json_stringify :: "jsval \<Rightarrow> stringified" where
  "json_stringify v =
     (if throws v then Throws else if v = JUndefined then NoText else Text (json_text v))"

subsection \<open>\<open>JSON.parse\<close>\<close>

text \<open>
  A recursive-descent reading of the JSON grammar: white space between tokens, the three
  literals, numbers, strings with their escapes, arrays and objects (a repeated key keeps
  its first position and takes the last value). \<open>None\<close> is the SyntaxError. Two kinds of
  text that the platform accepts denote values outside \<open>jsval\<close> and have no result here: a
  number with a fraction or an exponent, and a \<open>\uXXXX\<close> escape above \<open>00FF\<close>.
\<close>

definition is_ws :: "char \<Rightarrow> bool" where
  "is_ws c = (c = CHR 0x20 \<or> c = CHR 0x09 \<or> c = CHR 0x0A \<or> c = CHR 0x0D)"

definition skip_ws :: "string \<Rightarrow> string" where
  "skip_ws s = dropWhile is_ws s"

definition is_digit :: "char \<Rightarrow> bool" where
  "is_digit c = (48 \<le> (of_char c :: nat) \<and> (of_char c :: nat) \<le> 57)"

definition digit_val :: "char \<Rightarrow> nat" where
  "digit_val c = of_char c - 48"

definition hex_val :: "char \<Rightarrow> nat option" where
  "hex_val c =
     (let n = (of_char c :: nat) in
      if 48 \<le> n \<and> n \<le> 57 then Some (n - 48)
      else if 97 \<le> n \<and> n \<le> 102 then Some (n - 87)
      else if 65 \<le> n \<and> n \<le> 70 then Some (n - 55)
      else None)"

definition hex4 :: "char \<Rightarrow> char \<Rightarrow> char \<Rightarrow> char \<Rightarrow> nat option" where
  "hex4 a b c d =
     (case (hex_val a, hex_val b, hex_val c, hex_val d) of
        (Some w, Some x, Some y, Some z) \<Rightarrow> Some (((w * 16 + x) * 16 + y) * 16 + z)
      | _ \<Rightarrow> None)"

definition unescape :: "char \<Rightarrow> char option" where
  "unescape e =
     (if e = CHR 0x22 then Some (CHR 0x22)
      else if e = CHR 0x5C then Some (CHR 0x5C)
      else if e = CHR ''/'' then Some (CHR ''/'')
      else if e = CHR ''b'' then Some (CHR 0x08)
      else if e = CHR ''f'' then Some (CHR 0x0C)
      else if e = CHR ''n'' then Some (CHR 0x0A)
      else if e = CHR ''r'' then Some (CHR 0x0D)
      else if e = CHR ''t'' then Some (CHR 0x09)
      else None)"

definition with_char :: "char \<Rightarrow> (string \<times> string) option \<Rightarrow> (string \<times> string) option" where
  "with_char c r = map_option (\<lambda>(str, rest). (c # str, rest)) r"

text \<open>The characters of a string after its opening quotation mark, up to the closing one.\<close>

fun parse_chars :: "string \<Rightarrow> (string \<times> string) option" where
  "parse_chars [] = None"
| "parse_chars (c # cs) =
     (if c = CHR 0x22 then Some ([], cs)
      else if c = CHR 0x5C then
        (case cs of
           [] \<Rightarrow> None
         | e # es \<Rightarrow>
             if e = CHR ''u'' then
               (case es of
                  h1 # h2 # h3 # h4 # r \<Rightarrow>
                    (case hex4 h1 h2 h3 h4 of
                       None \<Rightarrow> None
                     | Some n \<Rightarrow> if n < 256 then with_char (char_of n) (parse_chars r) else None)
                | _ \<Rightarrow> None)
             else
               (case unescape e of
                  None \<Rightarrow> None
                | Some d \<Rightarrow> with_char d (parse_chars es)))
      else if (of_char c :: nat) < 32 then None
      else with_char c (parse_chars cs))"

definition parse_nat :: "string \<Rightarrow> (nat \<times> string) option" where
  "parse_nat s =
     (case s of
        [] \<Rightarrow> None
      | c # cs \<Rightarrow>
          if c = CHR ''0'' then Some (0, cs)
          else if is_digit c
            then Some (fold (\<lambda>d n. 10 * n + digit_val d) (takeWhile is_digit s) 0,
                       dropWhile is_digit s)
          else None)"

definition parse_number :: "string \<Rightarrow> (jsval \<times> string) option" where
  "parse_number s =
     (case s of
        [] \<Rightarrow> None
      | c # cs \<Rightarrow>
          if c = CHR ''-'' then map_option (\<lambda>(n, r). (JNum (- int n), r)) (parse_nat cs)
          else map_option (\<lambda>(n, r). (JNum (int n), r)) (parse_nat s))"

definition parse_word :: "string \<Rightarrow> jsval \<Rightarrow> string \<Rightarrow> (jsval \<times> string) option" where
  "parse_word w v s = (if take (length w) s = w then Some (v, drop (length w) s) else None)"

lemma skip_ws_length: "length (skip_ws s) \<le> length s"
  by (simp add: skip_ws_def length_dropWhile_le)

lemma skip_ws_Cons_length: "skip_ws s = c # cs \<Longrightarrow> length cs < length s"
  using skip_ws_length [of s] by simp

lemma parse_chars_length: "parse_chars s = Some (k, r) \<Longrightarrow> length r < length s"
proof (induction s arbitrary: k r rule: parse_chars.induct)
  case 1
  then show ?case by simp
next
  case (2 c cs)
  then show ?case
    by (fastforce simp: with_char_def split: if_splits list.splits option.splits)
qed

text \<open>
  A value, the elements of an array after the first bracket, and the members of an
  object after the first brace. The tests \<open>length r < length s\<close> always succeed (a value
  is never empty); they make the recursion visibly decreasing.
\<close>

function parse_value :: "string \<Rightarrow> (jsval \<times> string) option"
  and parse_elements :: "jsval list \<Rightarrow> string \<Rightarrow> (jsval list \<times> string) option"
  and parse_members ::
    "(string \<times> jsval) list \<Rightarrow> string \<Rightarrow> ((string \<times> jsval) list \<times> string) option"
where
  "parse_value s =
     (case skip_ws s of
        [] \<Rightarrow> None
      | c # cs \<Rightarrow>
          if c = CHR ''n'' then parse_word ''null'' JNull (c # cs)
          else if c = CHR ''t'' then parse_word ''true'' (JBool True) (c # cs)
          else if c = CHR ''f'' then parse_word ''false'' (JBool False) (c # cs)
          else if c = CHR 0x22 then map_option (\<lambda>(str, r). (JStr str, r)) (parse_chars cs)
          else if c = CHR ''['' then
            (case skip_ws cs of
               [] \<Rightarrow> None
             | d # ds \<Rightarrow>
                 if d = CHR '']'' then Some (JArr [], ds)
                 else map_option (\<lambda>(vs, r). (JArr vs, r)) (parse_elements [] cs))
          else if c = CHR ''{'' then
            (case skip_ws cs of
               [] \<Rightarrow> None
             | d # ds \<Rightarrow>
                 if d = CHR ''}'' then Some (JObj [], ds)
                 else map_option (\<lambda>(ps, r). (JObj ps, r)) (parse_members [] cs))
          else parse_number (c # cs))"
| "parse_elements acc s =
     (case parse_value s of
        None \<Rightarrow> None
      | Some (v, r) \<Rightarrow>
          if length r < length s then
            (case skip_ws r of
               [] \<Rightarrow> None
             | d # ds \<Rightarrow>
                 if d = CHR '','' then parse_elements (acc @ [v]) ds
                 else if d = CHR '']'' then Some (acc @ [v], ds)
                 else None)
          else None)"
| "parse_members acc s =
     (case skip_ws s of
        [] \<Rightarrow> None
      | q # cs \<Rightarrow>
          if q = CHR 0x22 then
            (case parse_chars cs of
               None \<Rightarrow> None
             | Some (k, r) \<Rightarrow>
                 (case skip_ws r of
                    [] \<Rightarrow> None
                  | e # es \<Rightarrow>
                      if e = CHR '':'' then
                        (case parse_value es of
                           None \<Rightarrow> None
                         | Some (v, r') \<Rightarrow>
                             if length r' < length es then
                               (case skip_ws r' of
                                  [] \<Rightarrow> None
                                | d # ds \<Rightarrow>
                                    if d = CHR '','' then parse_members (AList.update k v acc) ds
                                    else if d = CHR ''}'' then Some (AList.update k v acc, ds)
                                    else None)
                             else None)
                      else None))
          else None)"
  by pat_completeness auto
termination
  apply (relation "measure (\<lambda>x. case x of
            Inl s \<Rightarrow> 2 * length s
          | Inr (Inl (acc, s)) \<Rightarrow> 2 * length s + 1
          | Inr (Inr (acc, s)) \<Rightarrow> 2 * length s + 1)")
  apply (auto dest!: skip_ws_Cons_length parse_chars_length)
  done

declare parse_value.simps [simp del] parse_elements.simps [simp del] parse_members.simps [simp del]

definition json_parse :: "string \<Rightarrow> jsval option" where
  "json_parse s =
     (case parse_value s of
        None \<Rightarrow> None
      | Some (v, r) \<Rightarrow> if skip_ws r = [] then Some v else None)"

text \<open>
  The values that JSON represents: no \<open>undefined\<close>, BigInt or cycle anywhere inside, and
  the keys of an object pairwise different (as the own properties of an object are).
\<close>

fun json_representable :: "jsval \<Rightarrow> bool" where
  "json_representable JNull = True"
| "json_representable (JBool b) = True"
| "json_representable (JNum i) = True"
| "json_representable (JStr s) = True"
| "json_representable (JArr vs) = (\<forall>v \<in> set vs. json_representable v)"
| "json_representable (JObj ps) =
     (distinct (map fst ps) \<and> (\<forall>p \<in> set ps. json_representable (snd p)))"
| "json_representable _ = False"

text \<open>
  Auxiliary notions for the proof that \<open>json_parse\<close> reads back what \<open>json_text\<close>
  wrote: the text that follows a number must not go on with a digit, a value starts with
  one of a few characters, and the text of one member of an object.
\<close>

definition no_digit_ahead :: "string \<Rightarrow> bool" where
  "no_digit_ahead rest = (case rest of [] \<Rightarrow> True | c # _ \<Rightarrow> \<not> is_digit c)"

definition starter :: "char \<Rightarrow> bool" where
  "starter c = (c = CHR ''n'' \<or> c = CHR ''t'' \<or> c = CHR ''f'' \<or> c = CHR 0x22 \<or> c = CHR ''[''
                 \<or> c = CHR ''{'' \<or> c = CHR ''-'' \<or> is_digit c)"

definition member_text :: "string \<times> jsval \<Rightarrow> string" where
  "member_text p = quote (fst p) @ CHR '':'' # json_text (snd p)"

section \<open>The helper and the platform it runs on\<close>

text \<open>
  The model follows the simplified helper (\<open>class TinyIDBHelper\<close>, one object store named
  \<open>storage\<close> per database). An operation is a function from the state before to its result
  and the state after; a rejected promise or a thrown exception is the \<open>Inl\<close> result.
\<close>

datatype error_code = OPEN_FAILURE | TRANSACTION_FAILURE | JSON_PARSE_ERROR | NOT_SUPPORTED

text \<open>
  \<open>Error m c\<close> is \<open>new Error(m)\<close> with its \<open>code\<close> property (\<open>None\<close> when the helper sets
  none). Where the helper appends the platform's own message to its text, the model keeps
  the helper's fixed part. \<open>TypeError\<close> is the platform's exception for a property read on
  \<open>null\<close>.
\<close>

datatype error = Error string "error_code option" | TypeError

text \<open>
  The fields of the helper instance, then the platform, then two ghost fields.
  \<^item> \<open>db\<close>: the open connection, by the name of its database; \<open>None\<close> is \<open>null\<close>.
  \<^item> \<open>memoryStore\<close>: the \<open>Map\<close>, in insertion order.
  \<^item> \<open>initPromise\<close>: the promise of the initialization, by its serial number.
  \<^item> \<open>indexedDB_available\<close>: \<open>typeof window !== 'undefined' && window.indexedDB\<close>.
  \<^item> \<open>open_fails\<close>: whether \<open>indexedDB.open\<close> ends in its \<open>onerror\<close>.
  \<^item> \<open>request_fails\<close>: whether a transaction or request on the object store ends in its
    \<open>onerror\<close>.
  \<^item> \<open>databases\<close>: for each database name the entries of its \<open>storage\<close> object store, a stored
    value being a string or (\<open>None\<close>) \<open>undefined\<close>; a name that does not occur has the empty
    store. The key order in which the engine enumerates entries is not modelled.
  \<^item> \<open>doInitialize_calls\<close> counts the invocations of \<open>_doInitialize\<close>; \<open>closed_handles\<close> lists
    the connections on which \<open>close()\<close> was called.
\<close>

record world =
  dbName :: string
  db :: "string option"
  useMemoryFallback :: bool
  memoryStore :: "(string \<times> jsval) list"
  isInitialized :: bool
  initPromise :: "nat option"
  indexedDB_available :: bool
  open_fails :: bool
  request_fails :: bool
  databases :: "(string \<times> (string \<times> string option) list) list"
  doInitialize_calls :: nat
  closed_handles :: "string list"

definition constructor ::
  "bool \<Rightarrow> bool \<Rightarrow> (string \<times> (string \<times> string option) list) list \<Rightarrow> world" where
  "constructor available fails dbs =
     \<lparr>dbName = ''app-db'', db = None, useMemoryFallback = False, memoryStore = [],
      isInitialized = False, initPromise = None,
      indexedDB_available = available, open_fails = fails, request_fails = False,
      databases = dbs, doInitialize_calls = 0, closed_handles = []\<rparr>"

definition undefined_marker :: string where
  "undefined_marker = ''__TINY_IDB_UNDEFINED__''"

definition object_store :: "world \<Rightarrow> string \<Rightarrow> (string \<times> string option) list" where
  "object_store w name = (case map_of (databases w) name of None \<Rightarrow> [] | Some entries \<Rightarrow> entries)"

definition store_put :: "string \<Rightarrow> string \<Rightarrow> string option \<Rightarrow> world \<Rightarrow> world" where
  "store_put name k raw w =
     w\<lparr>databases := AList.update name (AList.update k raw (object_store w name)) (databases w)\<rparr>"

definition store_delete :: "string \<Rightarrow> string \<Rightarrow> world \<Rightarrow> world" where
  "store_delete name k w =
     w\<lparr>databases := AList.update name (AList.delete k (object_store w name)) (databases w)\<rparr>"

definition store_clear :: "string \<Rightarrow> world \<Rightarrow> world" where
  "store_clear name w = w\<lparr>databases := AList.update name [] (databases w)\<rparr>"

subsection \<open>Configuration and the initialization gate\<close>

text \<open>
  \<open>configure({ dbName = 'app-db' } = {})\<close>: the argument of the model is the \<open>dbName\<close>
  property of the options, \<open>JUndefined\<close> when it is left out.
\<close>

definition configure :: "jsval \<Rightarrow> world \<Rightarrow> (error + unit) \<times> world" where
  "configure option w =
     (case (if option = JUndefined then JStr ''app-db'' else option) of
        JStr name \<Rightarrow>
          (Inr (),
           w\<lparr>closed_handles :=
                (case db w of None \<Rightarrow> closed_handles w | Some h \<Rightarrow> closed_handles w @ [h]),
             dbName := name, isInitialized := False, initPromise := None, db := None,
             useMemoryFallback := False, memoryStore := []\<rparr>)
      | _ \<Rightarrow> (Inl (Error ''Invalid configuration: dbName must be string'' None), w))"

text \<open>
  The source's \<open>_initialize\<close> and \<open>_doInitialize\<close> are written without the underscore.
  \<open>_doInitialize\<close> in two parts: up to its \<open>await\<close> (the result names the database whose
  open request it waits for, \<open>None\<close> when it returned without waiting), and from the
  settling of that request on.
\<close>

definition doInitialize_begin :: "world \<Rightarrow> world \<times> string option" where
  "doInitialize_begin w =
     (let w1 = w\<lparr>doInitialize_calls := Suc (doInitialize_calls w)\<rparr> in
      if \<not> indexedDB_available w1
      then (w1\<lparr>useMemoryFallback := True, isInitialized := True\<rparr>, None)
      else (w1, Some (dbName w1)))"

definition doInitialize_resume :: "bool \<Rightarrow> string \<Rightarrow> world \<Rightarrow> world" where
  "doInitialize_resume opened name w =
     (if opened then w\<lparr>db := Some name, isInitialized := True\<rparr>
      else w\<lparr>useMemoryFallback := True, isInitialized := True\<rparr>)"

text \<open>
  One call of \<open>_initialize()\<close> up to its return: what the caller is left to await, the
  open request it started (if any), and the state.
\<close>

datatype gate = Ready | Awaits nat

definition initialize_call :: "world \<Rightarrow> gate \<times> string option \<times> world" where
  "initialize_call w =
     (if isInitialized w then (Ready, None, w)
      else case initPromise w of
             Some p \<Rightarrow> (Awaits p, None, w)
           | None \<Rightarrow>
               (case doInitialize_begin w of
                  (w1, request) \<Rightarrow>
                    (Awaits (doInitialize_calls w1), request,
                     w1\<lparr>initPromise := Some (doInitialize_calls w1)\<rparr>)))"

text \<open>
  \<open>await this._initialize()\<close> when no other operation is in flight: the open request
  that the call started settles as the platform decides before the operation goes on.
\<close>

definition initialize :: "world \<Rightarrow> world" where
  "initialize w =
     (case initialize_call w of
        (g, None, w1) \<Rightarrow> w1
      | (g, Some name, w1) \<Rightarrow> doInitialize_resume (\<not> open_fails w1) name w1)"

text \<open>
  Interleaved operations. Between two \<open>await\<close>s the code runs undisturbed, so a run of
  the gate under interleaving is a sequence of events: an operation reaching the gate
  (any of the data operations: each starts with \<open>await this._initialize()\<close>), the oldest
  open request in flight settling (successfully or not; nothing happens when none is in
  flight), and a call of \<open>configure\<close>. A configuration is the state with the open requests
  in flight; a run returns what the gate handed to each operation, in order.
\<close>

datatype event = Operation | Open_settles bool | Configure jsval

fun step :: "event \<Rightarrow> world \<times> string list \<Rightarrow> gate list \<times> world \<times> string list" where
  "step Operation (w, pending) =
     (case initialize_call w of
        (g, request, w1) \<Rightarrow>
          ([g], w1, pending @ (case request of None \<Rightarrow> [] | Some name \<Rightarrow> [name])))"
| "step (Open_settles opened) (w, pending) =
     (case pending of
        [] \<Rightarrow> ([], w, [])
      | name # rest \<Rightarrow> ([], doInitialize_resume opened name w, rest))"
| "step (Configure option) (w, pending) = ([], snd (configure option w), pending)"

fun run :: "event list \<Rightarrow> world \<times> string list \<Rightarrow> gate list \<times> world \<times> string list" where
  "run [] c = ([], c)"
| "run (e # es) c =
     (case step e c of (gs, c1) \<Rightarrow> (case run es c1 of (hs, c2) \<Rightarrow> (gs @ hs, c2)))"

fun is_configure :: "event \<Rightarrow> bool" where
  "is_configure (Configure option) = True"
| "is_configure _ = False"

subsection \<open>Reading, writing and removing one key\<close>

definition key_error :: error where
  "key_error = Error ''Key must be a string'' None"

definition stringify_error :: error where
  "stringify_error = Error ''JSON stringify error'' (Some JSON_PARSE_ERROR)"

definition parse_error :: error where
  "parse_error = Error ''JSON parse error'' (Some JSON_PARSE_ERROR)"

definition amount_error :: error where
  "amount_error = Error ''Increment amount must be a number'' None"

definition getItem :: "jsval \<Rightarrow> world \<Rightarrow> (error + jsval) \<times> world" where
  "getItem key w =
     (case key of
        JStr k \<Rightarrow>
          (let w1 = initialize w in
           if useMemoryFallback w1 then
             (Inr (case map_of (memoryStore w1) k of Some v \<Rightarrow> v | None \<Rightarrow> JNull), w1)
           else
             (case db w1 of
                None \<Rightarrow> (Inl TypeError, w1)
              | Some name \<Rightarrow>
                  if request_fails w1
                  then (Inl (Error ''Get request failed'' (Some TRANSACTION_FAILURE)), w1)
                  else
                    (case map_of (object_store w1 name) k of
                       Some (Some result) \<Rightarrow>
                         if result = undefined_marker then (Inr JUndefined, w1)
                         else
                           (case json_parse result of
                              Some v \<Rightarrow> (Inr v, w1)
                            | None \<Rightarrow> (Inl parse_error, w1))
                     | _ \<Rightarrow> (Inr JNull, w1))))
      | _ \<Rightarrow> (Inl key_error, w))"

definition setItem :: "jsval \<Rightarrow> jsval \<Rightarrow> world \<Rightarrow> (error + unit) \<times> world" where
  "setItem key value w =
     (case key of
        JStr k \<Rightarrow>
          (let w1 = initialize w in
           if useMemoryFallback w1 then
             (if value \<noteq> JUndefined \<and> json_stringify value = Throws
              then (Inl stringify_error, w1)
              else (Inr (), w1\<lparr>memoryStore := AList.update k value (memoryStore w1)\<rparr>))
           else
             (case db w1 of
                None \<Rightarrow> (Inl TypeError, w1)
              | Some name \<Rightarrow>
                  (case (if value = JUndefined then Text undefined_marker
                         else json_stringify value) of
                     Throws \<Rightarrow> (Inl stringify_error, w1)
                   | NoText \<Rightarrow>
                       if request_fails w1
                       then (Inl (Error ''Transaction failed'' (Some TRANSACTION_FAILURE)), w1)
                       else (Inr (), store_put name k None w1)
                   | Text serializedValue \<Rightarrow>
                       if request_fails w1
                       then (Inl (Error ''Transaction failed'' (Some TRANSACTION_FAILURE)), w1)
                       else (Inr (), store_put name k (Some serializedValue) w1))))
      | _ \<Rightarrow> (Inl key_error, w))"

definition removeItem :: "jsval \<Rightarrow> world \<Rightarrow> (error + unit) \<times> world" where
  "removeItem key w =
     (case key of
        JStr k \<Rightarrow>
          (let w1 = initialize w in
           if useMemoryFallback w1 then
             (Inr (), w1\<lparr>memoryStore := AList.delete k (memoryStore w1)\<rparr>)
           else
             (case db w1 of
                None \<Rightarrow> (Inl TypeError, w1)
              | Some name \<Rightarrow>
                  if request_fails w1
                  then (Inl (Error ''Transaction failed'' (Some TRANSACTION_FAILURE)), w1)
                  else (Inr (), store_delete name k w1)))
      | _ \<Rightarrow> (Inl key_error, w))"

definition nullify :: "jsval \<Rightarrow> world \<Rightarrow> (error + unit) \<times> world" where
  "nullify key w = setItem key JNull w"

subsection \<open>Derived operations\<close>

text \<open>
  \<open>increment(key, amount = 1)\<close>: an amount that is \<open>undefined\<close> (or left out) takes the
  default. \<open>typeof x === 'number'\<close> is \<open>x\<close> being a \<open>JNum\<close>.
\<close>

definition increment :: "jsval \<Rightarrow> jsval \<Rightarrow> world \<Rightarrow> (error + int) \<times> world" where
  "increment key amount w =
     (case (if amount = JUndefined then JNum 1 else amount) of
        JNum a \<Rightarrow>
          (case getItem key w of
             (Inl e, w1) \<Rightarrow> (Inl e, w1)
           | (Inr currentValue, w1) \<Rightarrow>
               (let numValue = (case currentValue of JNum n \<Rightarrow> n | _ \<Rightarrow> 0);
                    newValue = numValue + a
                in case setItem key (JNum newValue) w1 of
                     (Inl e, w2) \<Rightarrow> (Inl e, w2)
                   | (Inr u, w2) \<Rightarrow> (Inr newValue, w2)))
      | _ \<Rightarrow> (Inl amount_error, w))"

text \<open>
  \<open>decrement(key, amount = 1)\<close> with a numeric amount (\<open>None\<close>: left out). The unary minus
  of JavaScript on an amount that is not a number converts it first; that conversion is
  not modelled.
\<close>

definition decrement :: "jsval \<Rightarrow> int option \<Rightarrow> world \<Rightarrow> (error + int) \<times> world" where
  "decrement key amount w =
     increment key (JNum (- (case amount of None \<Rightarrow> 1 | Some a \<Rightarrow> a))) w"

definition has :: "jsval \<Rightarrow> world \<Rightarrow> (error + bool) \<times> world" where
  "has key w =
     (case key of
        JStr k \<Rightarrow>
          (case getItem key w of
             (Inl e, w1) \<Rightarrow> (Inl e, w1)
           | (Inr value, w1) \<Rightarrow> (Inr (value \<noteq> JNull), w1))
      | _ \<Rightarrow> (Inl key_error, w))"

subsection \<open>Enumeration\<close>

text \<open>
  \<open>keys()\<close>, \<open>values()\<close> and \<open>length()\<close> of the source are \<open>keys_all\<close>, \<open>values_all\<close> and
  \<open>length_all\<close> here.
\<close>

definition keys_all :: "world \<Rightarrow> (error + string list) \<times> world" where
  "keys_all w =
     (let w1 = initialize w in
      if useMemoryFallback w1 then (Inr (map fst (memoryStore w1)), w1)
      else
        (case db w1 of
           None \<Rightarrow> (Inl TypeError, w1)
         | Some name \<Rightarrow>
             if request_fails w1
             then (Inl (Error ''Keys request failed'' (Some TRANSACTION_FAILURE)), w1)
             else (Inr (map fst (object_store w1 name)), w1)))"

text \<open>
  The callback that \<open>values()\<close> maps over the stored values: the marker is \<open>undefined\<close>,
  a text that parses is its value, and where \<open>JSON.parse\<close> throws (also on a stored
  \<open>undefined\<close>) the stored value is returned as it is.
\<close>

definition decode_or_raw :: "string option \<Rightarrow> jsval" where
  "decode_or_raw stored =
     (case stored of
        None \<Rightarrow> JUndefined
      | Some value \<Rightarrow>
          if value = undefined_marker then JUndefined
          else (case json_parse value of Some v \<Rightarrow> v | None \<Rightarrow> JStr value))"

definition values_all :: "world \<Rightarrow> (error + jsval list) \<times> world" where
  "values_all w =
     (let w1 = initialize w in
      if useMemoryFallback w1 then (Inr (map snd (memoryStore w1)), w1)
      else
        (case db w1 of
           None \<Rightarrow> (Inl TypeError, w1)
         | Some name \<Rightarrow>
             if request_fails w1
             then (Inl (Error ''Values request failed'' (Some TRANSACTION_FAILURE)), w1)
             else (Inr (map (decode_or_raw \<circ> snd) (object_store w1 name)), w1)))"

definition length_all :: "world \<Rightarrow> (error + nat) \<times> world" where
  "length_all w =
     (let w1 = initialize w in
      if useMemoryFallback w1 then (Inr (length (memoryStore w1)), w1)
      else
        (case db w1 of
           None \<Rightarrow> (Inl TypeError, w1)
         | Some name \<Rightarrow>
             if request_fails w1
             then (Inl (Error ''Count request failed'' (Some TRANSACTION_FAILURE)), w1)
             else (Inr (length (object_store w1 name)), w1)))"

definition clear :: "world \<Rightarrow> (error + unit) \<times> world" where
  "clear w =
     (let w1 = initialize w in
      if useMemoryFallback w1 then (Inr (), w1\<lparr>memoryStore := []\<rparr>)
      else
        (case db w1 of
           None \<Rightarrow> (Inl TypeError, w1)
         | Some name \<Rightarrow>
             if request_fails w1
             then (Inl (Error ''Clear failed'' (Some TRANSACTION_FAILURE)), w1)
             else (Inr (), store_clear name w1)))"

subsection \<open>Sequences of data operations\<close>

text \<open>
  The data operations above as one type of calls, each with the value its promise
  resolves to, so that a property can be stated for every sequence of them.
\<close>

datatype call =
    GetItem jsval
  | SetItem jsval jsval
  | RemoveItem jsval
  | Nullify jsval
  | Increment jsval jsval
  | Decrement jsval "int option"
  | Has jsval
  | Keys
  | Values
  | Length
  | Clear

definition reply :: "('a \<Rightarrow> jsval) \<Rightarrow> (error + 'a) \<times> world \<Rightarrow> (error + jsval) \<times> world" where
  "reply f r = (map_sum id f (fst r), snd r)"

fun exec :: "call \<Rightarrow> world \<Rightarrow> (error + jsval) \<times> world" where
  "exec (GetItem k) w = getItem k w"
| "exec (SetItem k v) w = reply (\<lambda>u. JUndefined) (setItem k v w)"
| "exec (RemoveItem k) w = reply (\<lambda>u. JUndefined) (removeItem k w)"
| "exec (Nullify k) w = reply (\<lambda>u. JUndefined) (nullify k w)"
| "exec (Increment k a) w = reply JNum (increment k a w)"
| "exec (Decrement k a) w = reply JNum (decrement k a w)"
| "exec (Has k) w = reply JBool (has k w)"
| "exec Keys w = reply (\<lambda>ks. JArr (map JStr ks)) (keys_all w)"
| "exec Values w = reply JArr (values_all w)"
| "exec Length w = reply (\<lambda>n. JNum (int n)) (length_all w)"
| "exec Clear w = reply (\<lambda>u. JUndefined) (clear w)"

fun exec_all :: "call list \<Rightarrow> world \<Rightarrow> (error + jsval) list \<times> world" where
  "exec_all [] w = ([], w)"
| "exec_all (c # cs) w =
     (case exec c w of (r, w1) \<Rightarrow> (case exec_all cs w1 of (rs, w2) \<Rightarrow> (r # rs, w2)))"

text \<open>
  A call whose arguments have the types the operation asks for: a string key, a value
  that \<open>JSON.stringify\<close> accepts, an amount that is a number or left out.
\<close>

definition is_string :: "jsval \<Rightarrow> bool" where
  "is_string v = (case v of JStr s \<Rightarrow> True | _ \<Rightarrow> False)"

definition is_number :: "jsval \<Rightarrow> bool" where
  "is_number v = (case v of JNum n \<Rightarrow> True | _ \<Rightarrow> False)"

fun well_formed :: "call \<Rightarrow> bool" where
  "well_formed (GetItem k) = is_string k"
| "well_formed (SetItem k v) = (is_string k \<and> \<not> throws v)"
| "well_formed (RemoveItem k) = is_string k"
| "well_formed (Nullify k) = is_string k"
| "well_formed (Increment k a) = (is_string k \<and> (a = JUndefined \<or> is_number a))"
| "well_formed (Decrement k a) = is_string k"
| "well_formed (Has k) = is_string k"
| "well_formed _ = True"

text \<open>The errors that report a wrong argument, not a failure of the storage.\<close>

definition argument_error :: "error \<Rightarrow> bool" where
  "argument_error e = (e = key_error \<or> e = stringify_error \<or> e = amount_error)"

text \<open>
  The volatile backend is active, or it will be after the next pass through the gate
  because the platform has no IndexedDB or refuses to open the database.
\<close>

definition falls_back :: "world \<Rightarrow> bool" where
  "falls_back w =
     (if isInitialized w then useMemoryFallback w
      else initPromise w = None \<and> (\<not> indexedDB_available w \<or> open_fails w))"

text \<open>
  On a state that falls back, a call either stops at an argument check and leaves the
  state as it was, or passes the gate and changes the volatile mapping at most.
\<close>

definition stopped :: "call \<Rightarrow> world \<Rightarrow> (error + jsval) \<times> world \<Rightarrow> bool" where
  "stopped c w out =
     (snd out = w \<and> \<not> well_formed c \<and> (fst out = Inl key_error \<or> fst out = Inl amount_error))"

definition passed :: "call \<Rightarrow> world \<Rightarrow> (error + jsval) \<times> world \<Rightarrow> bool" where
  "passed c w out =
     ((\<exists>m. snd out = (initialize w)\<lparr>memoryStore := m\<rparr>)
      \<and> ((\<exists>v. fst out = Inr v) \<or> (fst out = Inl stringify_error \<and> \<not> well_formed c)))"

subsection \<open>States that sequential use produces\<close>

text \<open>
  Once initialized, one of the two backends is active; the initialization promise is
  stored only by an initialization that has completed.
\<close>

definition consistent :: "world \<Rightarrow> bool" where
  "consistent w =
     ((isInitialized w \<longrightarrow> useMemoryFallback w \<or> db w \<noteq> None)
      \<and> (initPromise w \<noteq> None \<longrightarrow> isInitialized w))"

text \<open>Whether the backend that is active in \<open>w\<close> holds an entry under the key.\<close>

definition present :: "string \<Rightarrow> world \<Rightarrow> bool" where
  "present k w =
     (if useMemoryFallback w then k \<in> set (map fst (memoryStore w))
      else (case db w of
              None \<Rightarrow> False
            | Some name \<Rightarrow> k \<in> set (map fst (object_store w name))))"

section \<open>The codec is reversible\<close>

subsection \<open>Numbers\<close>

lemma digit_val_digit_char: "d < 10 \<Longrightarrow> digit_val (digit_char d) = d"
  by (simp add: digit_val_def digit_char_def)

lemma is_digit_digit_char: "d < 10 \<Longrightarrow> is_digit (digit_char d)"
  by (simp add: is_digit_def digit_char_def)

lemma char_of_48: "char_of (48::nat) = CHR ''0''"
  using char_of_char [of "CHR ''0''", where ?'a = nat] by simp

lemma digit_char_zero: "d < 10 \<Longrightarrow> digit_char d = CHR ''0'' \<longleftrightarrow> d = 0"
proof
  assume d: "d < 10" and eq: "digit_char d = CHR ''0''"
  from eq have "(of_char (digit_char d) :: nat) = of_char (CHR ''0'')" by simp
  with d show "d = 0" by (simp add: digit_char_def)
next
  assume "d = 0"
  then show "digit_char d = CHR ''0''" by (simp add: digit_char_def char_of_48)
qed

lemma digits_nonempty: "digits n \<noteq> []"
  by (induction n rule: digits.induct) (subst digits.simps, simp)

lemma digits_all: "\<forall>c \<in> set (digits n). is_digit c"
proof (induction n rule: digits.induct)
  case (1 n)
  show ?case
  proof (cases "n < 10")
    case True
    then show ?thesis by (subst digits.simps) (simp add: is_digit_digit_char)
  next
    case False
    with 1 show ?thesis by (subst digits.simps) (simp add: is_digit_digit_char)
  qed
qed

lemma hd_digits: "0 < n \<Longrightarrow> hd (digits n) \<noteq> CHR ''0''"
proof (induction n rule: digits.induct)
  case (1 n)
  show ?case
  proof (cases "n < 10")
    case True
    with 1(2) show ?thesis by (subst digits.simps) (simp add: digit_char_zero)
  next
    case False
    then have "0 < n div 10" by simp
    with 1 False show ?thesis by (subst digits.simps) (simp add: digits_nonempty)
  qed
qed

lemma fold_digits: "fold (\<lambda>d n. 10 * n + digit_val d) (digits n) 0 = n"
proof (induction n rule: digits.induct)
  case (1 n)
  show ?case
  proof (cases "n < 10")
    case True
    then show ?thesis by (subst digits.simps) (simp add: digit_val_digit_char)
  next
    case False
    with 1 show ?thesis by (subst digits.simps) (simp add: digit_val_digit_char)
  qed
qed

lemma takeWhile_digits: "no_digit_ahead rest \<Longrightarrow> takeWhile is_digit (digits n @ rest) = digits n"
  using digits_all [of n] by (cases rest) (simp_all add: no_digit_ahead_def takeWhile_append2)

lemma dropWhile_digits: "no_digit_ahead rest \<Longrightarrow> dropWhile is_digit (digits n @ rest) = rest"
  using digits_all [of n] by (cases rest) (simp_all add: no_digit_ahead_def dropWhile_append2)

lemma parse_nat_digits:
  assumes "no_digit_ahead rest"
  shows "parse_nat (digits n @ rest) = Some (n, rest)"
proof (cases "n = 0")
  case True
  then show ?thesis by (simp add: parse_nat_def digit_char_def digits.simps char_of_48)
next
  case False
  obtain c cs where cs: "digits n = c # cs"
    using digits_nonempty [of n] by (cases "digits n") auto
  have c0: "c \<noteq> CHR ''0''" using hd_digits [of n] False cs by simp
  have cd: "is_digit c" using digits_all [of n] cs by simp
  have "parse_nat (digits n @ rest) =
          Some (fold (\<lambda>d n. 10 * n + digit_val d) (takeWhile is_digit (digits n @ rest)) 0,
                dropWhile is_digit (digits n @ rest))"
    unfolding parse_nat_def using c0 cd cs by simp
  then show ?thesis
    using assms by (simp add: takeWhile_digits dropWhile_digits fold_digits)
qed

lemma hd_digits_not_minus: "hd (digits n) \<noteq> CHR ''-''"
proof -
  have "is_digit (hd (digits n))" using digits_all [of n] digits_nonempty [of n] by simp
  then show ?thesis by (auto simp: is_digit_def)
qed

lemma parse_number_text:
  assumes "no_digit_ahead rest"
  shows "parse_number (number_text i @ rest) = Some (JNum i, rest)"
proof (cases "i < 0")
  case True
  then show ?thesis
    by (simp add: parse_number_def number_text_def parse_nat_digits [OF assms])
next
  case False
  obtain c cs where cs: "digits (nat i) = c # cs"
    using digits_nonempty [of "nat i"] by (cases "digits (nat i)") auto
  have "c \<noteq> CHR ''-''" using hd_digits_not_minus [of "nat i"] cs by simp
  moreover have "parse_nat (c # cs @ rest) = Some (nat i, rest)"
    using parse_nat_digits [OF assms, of "nat i"] cs by simp
  ultimately show ?thesis
    using False cs by (simp add: parse_number_def number_text_def)
qed

subsection \<open>Strings and first characters\<close>

lemma hex_val_hex_char: "d < 16 \<Longrightarrow> hex_val (hex_char d) = Some d"
  by (auto simp: hex_val_def hex_char_def Let_def)

lemma hex_val_zero: "hex_val (CHR ''0'') = Some 0"
  by (simp add: hex_val_def)

lemma parse_chars_quote_char:
  "parse_chars (quote_char c @ after) = with_char c (parse_chars after)"
proof (cases "(of_char c :: nat) < 32")
  case False
  then show ?thesis
    by (auto simp: quote_char_def unescape_def)
next
  case True
  have lo: "(of_char c :: nat) mod 16 < 16" and hi: "(of_char c :: nat) div 16 < 16"
    using True by simp_all
  have val: "hex4 (CHR ''0'') (CHR ''0'') (hex_char (of_char c div 16)) (hex_char (of_char c mod 16))
               = Some (of_char c)"
    by (simp add: hex4_def hex_val_zero hex_val_hex_char [OF lo] hex_val_hex_char [OF hi])
  have small: "(of_char c :: nat) < 256" using True by simp
  show ?thesis
    using True val small by (auto simp: quote_char_def unescape_def)
qed

lemma parse_chars_quoted:
  "parse_chars (concat (map quote_char s) @ CHR 0x22 # rest) = Some (s, rest)"
  by (induction s) (simp_all add: parse_chars_quote_char with_char_def)

lemma starter_facts:
  assumes "starter c"
  shows "\<not> is_ws c" and "c \<noteq> CHR '']''" and "c \<noteq> CHR ''}''"
  using assms by (auto simp: starter_def is_ws_def is_digit_def)

lemma json_text_starts:
  assumes "json_representable v"
  shows "\<exists>c cs. json_text v = c # cs \<and> starter c"
proof (cases v)
  case (JNum i)
  obtain c cs where cs: "digits (nat (\<bar>i\<bar>)) = c # cs"
    using digits_nonempty [of "nat \<bar>i\<bar>"] by (cases "digits (nat \<bar>i\<bar>)") auto
  have "is_digit c" using digits_all [of "nat \<bar>i\<bar>"] cs by simp
  then show ?thesis
    using JNum cs by (cases "i < 0") (auto simp: number_text_def starter_def abs_if)
qed (use assms in \<open>auto simp: starter_def quote_def\<close>)

lemma skip_ws_starter: "starter c \<Longrightarrow> skip_ws (c # cs) = c # cs"
  by (simp add: skip_ws_def starter_facts)

subsection \<open>Arrays, objects and the whole value\<close>

lemma json_text_nonempty: "json_representable v \<Longrightarrow> json_text v \<noteq> []"
  using json_text_starts [of v] by auto

lemma no_digit_ahead_sep [simp]:
  "no_digit_ahead (CHR '','' # r)" "no_digit_ahead (CHR '']'' # r)" "no_digit_ahead (CHR ''}'' # r)"
  "no_digit_ahead []"
  by (simp_all add: no_digit_ahead_def is_digit_def)

lemma skip_ws_sep [simp]:
  "skip_ws (CHR '','' # r) = CHR '','' # r" "skip_ws (CHR '']'' # r) = CHR '']'' # r"
  "skip_ws (CHR ''}'' # r) = CHR ''}'' # r" "skip_ws (CHR '':'' # r) = CHR '':'' # r"
  "skip_ws (CHR 0x22 # r) = CHR 0x22 # r" "skip_ws [] = []"
  by (simp_all add: skip_ws_def is_ws_def)

lemma parse_elements_commas:
  assumes "vs \<noteq> []"
    and "\<forall>v \<in> set vs. json_representable v"
    and "\<And>v r. v \<in> set vs \<Longrightarrow> no_digit_ahead r \<Longrightarrow> parse_value (json_text v @ r) = Some (v, r)"
  shows "parse_elements acc (commas (map json_text vs) @ CHR '']'' # rest) = Some (acc @ vs, rest)"
  using assms
proof (induction vs arbitrary: acc)
  case Nil
  then show ?case by simp
next
  case (Cons v ws)
  have ne: "json_text v \<noteq> []" using Cons.prems(2) by (simp add: json_text_nonempty)
  show ?case
  proof (cases ws)
    case Nil
    have "parse_value (json_text v @ CHR '']'' # rest) = Some (v, CHR '']'' # rest)"
      using Cons.prems(3) [of v] by simp
    then show ?thesis
      using Nil ne by (subst parse_elements.simps) simp
  next
    case (Cons w ws')
    let ?after = "commas (map json_text ws) @ CHR '']'' # rest"
    have pv: "parse_value (json_text v @ CHR '','' # ?after) = Some (v, CHR '','' # ?after)"
      using Cons.prems(3) [of v] by simp
    have ih: "parse_elements (acc @ [v]) ?after = Some ((acc @ [v]) @ ws, rest)"
      using Cons.IH [of "acc @ [v]"] Cons.prems Cons by simp
    show ?thesis
      using Cons pv ih ne by (subst parse_elements.simps) simp
  qed
qed

lemma update_fresh: "k \<notin> fst ` set al \<Longrightarrow> AList.update k v al = al @ [(k, v)]"
  by (induction al) auto

lemma parse_members_commas:
  assumes "ps \<noteq> []"
    and "\<forall>p \<in> set ps. json_representable (snd p)"
    and "distinct (map fst (acc @ ps))"
    and "\<And>p r. p \<in> set ps \<Longrightarrow> no_digit_ahead r
            \<Longrightarrow> parse_value (json_text (snd p) @ r) = Some (snd p, r)"
  shows "parse_members acc (commas (map member_text ps) @ CHR ''}'' # rest) = Some (acc @ ps, rest)"
  using assms
proof (induction ps arbitrary: acc)
  case Nil
  then show ?case by simp
next
  case (Cons p qs)
  obtain k v where p: "p = (k, v)" by (cases p)
  have ne: "json_text v \<noteq> []" using Cons.prems(2) p by (simp add: json_text_nonempty)
  have fresh: "AList.update k v acc = acc @ [(k, v)]"
    using Cons.prems(3) p by (intro update_fresh) auto
  have key: "\<And>after. parse_chars (concat (map quote_char k) @ CHR 0x22 # after) = Some (k, after)"
    by (rule parse_chars_quoted)
  show ?case
  proof (cases qs)
    case Nil
    have "parse_value (json_text v @ CHR ''}'' # rest) = Some (v, CHR ''}'' # rest)"
      using Cons.prems(4) [of p] p by simp
    then show ?thesis
      using Nil ne p fresh key
      by (subst parse_members.simps) (simp add: member_text_def quote_def)
  next
    case (Cons q qs')
    let ?after = "commas (map member_text qs) @ CHR ''}'' # rest"
    have pv: "parse_value (json_text v @ CHR '','' # ?after) = Some (v, CHR '','' # ?after)"
      using Cons.prems(4) [of p] p by simp
    have ih: "parse_members (acc @ [p]) ?after = Some ((acc @ [p]) @ qs, rest)"
      using Cons.IH [of "acc @ [p]"] Cons.prems Cons by simp
    show ?thesis
      using Cons pv ih ne p fresh key
      by (subst parse_members.simps) (simp add: member_text_def quote_def)
  qed
qed

lemma representable_not_undefined: "json_representable v \<Longrightarrow> v \<noteq> JUndefined"
  by auto

lemma parse_value_json_text:
  "json_representable v \<Longrightarrow> no_digit_ahead rest \<Longrightarrow> parse_value (json_text v @ rest) = Some (v, rest)"
proof (induction v arbitrary: rest)
  case JUndefined
  then show ?case by simp
next
  case JNull
  show ?case by (subst parse_value.simps) (simp add: skip_ws_def is_ws_def parse_word_def)
next
  case (JBool b)
  show ?case by (subst parse_value.simps) (simp add: skip_ws_def is_ws_def parse_word_def)
next
  case (JNum i)
  obtain c cs where cs: "number_text i = c # cs" and st: "starter c"
    using json_text_starts [of "JNum i"] by auto
  have "c \<noteq> CHR ''n''" "c \<noteq> CHR ''t''" "c \<noteq> CHR ''f''" "c \<noteq> CHR 0x22" "c \<noteq> CHR ''[''" "c \<noteq> CHR ''{''"
    using cs digits_all [of "nat i"] digits_all [of "nat (- i)"]
    by (auto simp: number_text_def is_digit_def split: if_splits list.splits
             dest!: arg_cong [where f = hd])
  moreover have "parse_number (c # cs @ rest) = Some (JNum i, rest)"
    using parse_number_text [OF JNum.prems(2), of i] cs by simp
  ultimately show ?case
    using cs st by (subst parse_value.simps) (simp add: skip_ws_starter)
next
  case (JStr s)
  show ?case
    by (subst parse_value.simps) (simp add: quote_def parse_chars_quoted)
next
  case (JArr vs)
  have rep: "\<forall>v \<in> set vs. json_representable v" using JArr.prems by simp
  then have same: "map (\<lambda>v. if v = JUndefined then ''null'' else json_text v) vs = map json_text vs"
    by (auto dest: representable_not_undefined)
  have shape: "json_text (JArr vs) = CHR ''['' # commas (map json_text vs) @ '']''"
    by (simp add: same)
  have br: "skip_ws (CHR ''['' # r) = CHR ''['' # r" for r by (simp add: skip_ws_def is_ws_def)
  show ?case
  proof (cases vs)
    case Nil
    then show ?thesis by (subst parse_value.simps) (simp add: br)
  next
    case (Cons w ws)
    obtain c cs where cs: "json_text w = c # cs" and st: "starter c"
      using json_text_starts [of w] rep Cons by auto
    have hd: "\<exists>after. commas (map json_text vs) @ CHR '']'' # rest = c # after"
      using Cons cs by (cases ws) auto
    then obtain after where after: "commas (map json_text vs) @ CHR '']'' # rest = c # after" ..
    have el: "parse_elements [] (c # after) = Some (vs, rest)"
      using parse_elements_commas [of vs "[]" rest] rep Cons JArr.IH after by simp
    show ?thesis
      unfolding shape using after el st
      by (subst parse_value.simps) (simp add: br skip_ws_starter starter_facts)
  qed
next
  case (JObj ps)
  have rep: "\<forall>p \<in> set ps. json_representable (snd p)" and dist: "distinct (map fst ps)"
    using JObj.prems by simp_all
  then have keep: "filter (\<lambda>p. snd p \<noteq> JUndefined) ps = ps"
    by (auto simp: filter_id_conv dest: representable_not_undefined)
  have shape: "json_text (JObj ps) = CHR ''{'' # commas (map member_text ps) @ ''}''"
    using keep by (simp add: member_text_def [abs_def])
  have br: "skip_ws (CHR ''{'' # r) = CHR ''{'' # r" for r by (simp add: skip_ws_def is_ws_def)
  show ?case
  proof (cases ps)
    case Nil
    then show ?thesis by (subst parse_value.simps) (simp add: br)
  next
    case (Cons q qs)
    have hd: "\<exists>after. commas (map member_text ps) @ CHR ''}'' # rest = CHR 0x22 # after"
      using Cons by (cases qs) (auto simp: member_text_def quote_def)
    then obtain after where after: "commas (map member_text ps) @ CHR ''}'' # rest = CHR 0x22 # after" ..
    have each: "\<And>p r. p \<in> set ps \<Longrightarrow> no_digit_ahead r
            \<Longrightarrow> parse_value (json_text (snd p) @ r) = Some (snd p, r)"
    proof -
      fix p r assume p: "p \<in> set ps" and r: "no_digit_ahead r"
      have "snd p \<in> Basic_BNFs.snds p" by (cases p) simp
      then show "parse_value (json_text (snd p) @ r) = Some (snd p, r)"
        using JObj.IH [OF p _ _ r] rep p by simp
    qed
    have mem: "parse_members [] (CHR 0x22 # after) = Some (ps, rest)"
      using parse_members_commas [of ps "[]" rest] rep dist Cons each after by simp
    show ?thesis
      unfolding shape using after mem
      by (subst parse_value.simps) (simp add: br)
  qed
next
  case (JBigInt n)
  then show ?case by simp
next
  case JCircular
  then show ?case by simp
qed

lemma json_parse_json_text: "json_representable v \<Longrightarrow> json_parse (json_text v) = Some v"
  using parse_value_json_text [of v "[]"] by (simp add: json_parse_def)

section \<open>Facts about the gate and the two backends\<close>

lemma json_text_not_marker:
  assumes "\<not> throws v" and "v \<noteq> JUndefined"
  shows "json_text v \<noteq> undefined_marker"
proof (cases v)
  case (JNum i)
  obtain c cs where cs: "digits (nat \<bar>i\<bar>) = c # cs"
    using digits_nonempty [of "nat \<bar>i\<bar>"] by (cases "digits (nat \<bar>i\<bar>)") auto
  have "is_digit c" using digits_all [of "nat \<bar>i\<bar>"] cs by simp
  then have "c \<noteq> CHR ''_''" by (auto simp: is_digit_def)
  then show ?thesis
    using JNum cs by (cases "i < 0") (auto simp: number_text_def undefined_marker_def abs_if)
qed (use assms in \<open>auto simp: undefined_marker_def quote_def\<close>)

lemma stringify_not_marker: "json_stringify v \<noteq> Text undefined_marker"
  using json_text_not_marker [of v] by (auto simp: json_stringify_def)

lemma initialize_cases:
  "initialize w =
     (if isInitialized w \<or> initPromise w \<noteq> None then w
      else if \<not> indexedDB_available w
        then w\<lparr>doInitialize_calls := Suc (doInitialize_calls w), useMemoryFallback := True,
               isInitialized := True, initPromise := Some (Suc (doInitialize_calls w))\<rparr>
      else if open_fails w
        then w\<lparr>doInitialize_calls := Suc (doInitialize_calls w),
               initPromise := Some (Suc (doInitialize_calls w)),
               useMemoryFallback := True, isInitialized := True\<rparr>
      else w\<lparr>doInitialize_calls := Suc (doInitialize_calls w),
             initPromise := Some (Suc (doInitialize_calls w)),
             db := Some (dbName w), isInitialized := True\<rparr>)"
  by (auto simp: initialize_def initialize_call_def doInitialize_begin_def doInitialize_resume_def
      Let_def split: option.splits)

lemma initialize_idem [simp]: "initialize (initialize w) = initialize w"
  by (simp add: initialize_cases)

lemma initialize_memoryStore_update [simp]:
  "initialize (w\<lparr>memoryStore := m\<rparr>) = (initialize w)\<lparr>memoryStore := m\<rparr>"
  by (simp add: initialize_cases)

lemma initialize_databases_update [simp]:
  "initialize (w\<lparr>databases := d\<rparr>) = (initialize w)\<lparr>databases := d\<rparr>"
  by (simp add: initialize_cases)

lemma initialize_keeps [simp]:
  "memoryStore (initialize w) = memoryStore w"
  "databases (initialize w) = databases w"
  "request_fails (initialize w) = request_fails w"
  "open_fails (initialize w) = open_fails w"
  "indexedDB_available (initialize w) = indexedDB_available w"
  "dbName (initialize w) = dbName w"
  "closed_handles (initialize w) = closed_handles w"
  by (simp_all add: initialize_cases)

lemma object_store_initialize [simp]: "object_store (initialize w) name = object_store w name"
  by (simp add: object_store_def)

lemma object_store_put [simp]:
  "object_store (store_put name k raw w) name = AList.update k raw (object_store w name)"
  by (simp add: object_store_def store_put_def update_conv')

lemma object_store_delete [simp]:
  "object_store (store_delete name k w) name = AList.delete k (object_store w name)"
  by (simp add: object_store_def store_delete_def update_conv')

lemma store_put_fields [simp]:
  "useMemoryFallback (store_put name k raw w) = useMemoryFallback w"
  "db (store_put name k raw w) = db w"
  "request_fails (store_put name k raw w) = request_fails w"
  "memoryStore (store_put name k raw w) = memoryStore w"
  "initialize (store_put name k raw w) = store_put name k raw (initialize w)"
  by (simp_all add: store_put_def object_store_def)

lemma store_delete_fields [simp]:
  "useMemoryFallback (store_delete name k w) = useMemoryFallback w"
  "db (store_delete name k w) = db w"
  "request_fails (store_delete name k w) = request_fails w"
  "memoryStore (store_delete name k w) = memoryStore w"
  "initialize (store_delete name k w) = store_delete name k (initialize w)"
  by (simp_all add: store_delete_def object_store_def)

lemma map_of_update_same [simp]: "map_of (AList.update k v al) k = Some v"
  by (simp add: update_conv')

text \<open>What a successful write leaves behind, and what reading it back returns.\<close>

lemma setItem_then_getItem:
  assumes "setItem (JStr k) v w = (Inr (), w1)"
    and "v = JUndefined \<or> json_representable v \<or> useMemoryFallback w1"
  shows "getItem (JStr k) w1 = (Inr v, w1)"
proof (cases "useMemoryFallback (initialize w)")
  case True
  with assms(1) have "w1 = (initialize w)\<lparr>memoryStore := AList.update k v (memoryStore w)\<rparr>"
    by (auto simp: setItem_def Let_def split: if_splits)
  with True show ?thesis by (simp add: getItem_def Let_def)
next
  case False
  from assms(1) False obtain name where name: "db (initialize w) = Some name"
    by (auto simp: setItem_def Let_def split: option.splits)
  show ?thesis
  proof (cases "v = JUndefined")
    case True
    with assms(1) False name
    have "w1 = store_put name k (Some undefined_marker) (initialize w)" "\<not> request_fails w"
      by (auto simp: setItem_def Let_def split: if_splits)
    with False name show ?thesis by (simp add: getItem_def Let_def True)
  next
    case undef: False
    from assms(1) False name undef
    have nt: "\<not> throws v" and w1: "w1 = store_put name k (Some (json_text v)) (initialize w)"
      and ok: "\<not> request_fails w"
      by (auto simp: setItem_def Let_def json_stringify_def split: if_splits)
    have "\<not> useMemoryFallback w1" using w1 False by simp
    with assms(2) undef have rep: "json_representable v" by simp
    have "json_text v \<noteq> undefined_marker" using nt undef by (rule json_text_not_marker)
    with False name w1 ok rep show ?thesis
      by (simp add: getItem_def Let_def json_parse_json_text)
  qed
qed


lemma initialize_backend:
  assumes "consistent w"
  shows "useMemoryFallback (initialize w) \<or> db (initialize w) \<noteq> None"
  using assms by (auto simp: consistent_def initialize_cases)

lemma setItem_succeeds:
  assumes "consistent w" and "\<not> request_fails w" and "\<not> throws v"
  shows "\<exists>w1. setItem (JStr k) v w = (Inr (), w1)"
  using initialize_backend [OF assms(1)] assms(2,3)
  by (auto simp: setItem_def Let_def json_stringify_def)

lemma constructor_consistent: "consistent (constructor available fails dbs)"
  by (simp add: consistent_def constructor_def)

lemma constructor_request_ok: "\<not> request_fails (constructor available fails dbs)"
  by (simp add: constructor_def)

lemma getItem_initialize: "getItem (JStr k) (initialize w) = getItem (JStr k) w"
  by (simp add: getItem_def Let_def)

lemma getItem_absent:
  assumes "consistent w" and "\<not> request_fails w" and "\<not> present k (initialize w)"
  shows "getItem (JStr k) w = (Inr JNull, initialize w)"
proof (cases "useMemoryFallback (initialize w)")
  case True
  with assms(3) have "map_of (memoryStore w) k = None"
    by (simp add: present_def map_of_eq_None_iff)
  with True show ?thesis by (simp add: getItem_def Let_def)
next
  case False
  with initialize_backend [OF assms(1)] obtain name where name: "db (initialize w) = Some name"
    by auto
  with assms(3) False have "map_of (object_store w name) k = None"
    by (simp add: present_def map_of_eq_None_iff)
  with False name assms(2) show ?thesis by (simp add: getItem_def Let_def)
qed

lemma keys_after_setItem:
  assumes "setItem (JStr k) v w = (Inr (), w1)"
  shows "\<exists>ks. keys_all w1 = (Inr ks, w1) \<and> k \<in> set ks"
proof (cases "useMemoryFallback (initialize w)")
  case True
  with assms have "w1 = (initialize w)\<lparr>memoryStore := AList.update k v (memoryStore w)\<rparr>"
    by (auto simp: setItem_def Let_def split: if_splits)
  with True show ?thesis by (simp add: keys_all_def Let_def dom_update)
next
  case False
  from assms False obtain name where name: "db (initialize w) = Some name"
    by (auto simp: setItem_def Let_def split: option.splits)
  from assms False name obtain raw where
    "w1 = store_put name k raw (initialize w)" "\<not> request_fails w"
    by (auto simp: setItem_def Let_def split: if_splits stringified.splits)
  with False name show ?thesis by (simp add: keys_all_def Let_def dom_update)
qed

lemma consistent_initialize: "consistent w \<Longrightarrow> consistent (initialize w)"
  by (auto simp: consistent_def initialize_cases)

lemma consistent_updates [simp]:
  "consistent (w\<lparr>memoryStore := m\<rparr>) = consistent w"
  "consistent (w\<lparr>databases := d\<rparr>) = consistent w"
  "consistent (store_put name k raw w) = consistent w"
  "consistent (store_delete name k w) = consistent w"
  "consistent (store_clear name w) = consistent w"
  by (simp_all add: consistent_def store_put_def store_delete_def store_clear_def)


lemma setItem_unserializable:
  assumes "throws v" and "consistent w"
  shows "setItem (JStr k) v w = (Inl stringify_error, initialize w)"
proof -
  have "v \<noteq> JUndefined" using assms(1) by auto
  then show ?thesis
    using assms initialize_backend [of w]
    by (auto simp: setItem_def Let_def json_stringify_def)
qed





subsection \<open>Interleaved runs and the fallback\<close>

lemma initialize_call_closed:
  assumes "isInitialized w \<or> initPromise w \<noteq> None"
  shows "\<exists>g. initialize_call w = (g, None, w)
            \<and> (g = Ready \<or> (\<exists>p. initPromise w = Some p \<and> g = Awaits p))"
  using assms by (auto simp: initialize_call_def)

lemma initialize_call_open:
  assumes "\<not> isInitialized w" and "initPromise w = None"
  shows "\<exists>request w1. initialize_call w = (Awaits (Suc (doInitialize_calls w)), request, w1)
            \<and> initPromise w1 = Some (Suc (doInitialize_calls w))
            \<and> doInitialize_calls w1 = Suc (doInitialize_calls w)"
  using assms by (auto simp: initialize_call_def doInitialize_begin_def Let_def)

lemma doInitialize_resume_fields [simp]:
  "isInitialized (doInitialize_resume opened name w)"
  "initPromise (doInitialize_resume opened name w) = initPromise w"
  "doInitialize_calls (doInitialize_resume opened name w) = doInitialize_calls w"
  by (simp_all add: doInitialize_resume_def)

lemma run_closed:
  assumes "isInitialized w \<or> initPromise w \<noteq> None"
    and "filter is_configure events = []"
    and "run events (w, pending) = (gates, w', pending')"
  shows "doInitialize_calls w' = doInitialize_calls w \<and> initPromise w' = initPromise w
       \<and> (\<forall>g \<in> set gates. g = Ready \<or> (\<exists>p. initPromise w = Some p \<and> g = Awaits p))"
  using assms
proof (induction events arbitrary: w pending gates)
  case Nil
  then show ?case by simp
next
  case (Cons e es)
  have es: "filter is_configure es = []" using Cons.prems(2) by (simp split: if_splits)
  show ?case
  proof (cases e)
    case Operation
    obtain g where g: "initialize_call w = (g, None, w)"
      and shape: "g = Ready \<or> (\<exists>p. initPromise w = Some p \<and> g = Awaits p)"
      using initialize_call_closed [OF Cons.prems(1)] by auto
    obtain hs where rest: "run es (w, pending) = (hs, w', pending')" and gates: "gates = g # hs"
      using Cons.prems(3) Operation g by (auto split: prod.splits)
    show ?thesis
      using Cons.IH [OF Cons.prems(1) es rest] gates shape by auto
  next
    case (Open_settles opened)
    show ?thesis
    proof (cases pending)
      case Nil
      then have "run es (w, []) = (gates, w', pending')"
        using Cons.prems(3) Open_settles by (auto split: prod.splits)
      then show ?thesis using Cons.IH [OF Cons.prems(1) es] by blast
    next
      case (Cons name rest)
      let ?w1 = "doInitialize_resume opened name w"
      have run1: "run es (?w1, rest) = (gates, w', pending')"
        using Cons.prems(3) Open_settles Cons by (auto split: prod.splits)
      have "isInitialized ?w1 \<or> initPromise ?w1 \<noteq> None" by simp
      from Cons.IH [OF this es run1] show ?thesis by simp
    qed
  next
    case (Configure option)
    then show ?thesis using Cons.prems(2) by simp
  qed
qed

lemma run_epoch:
  assumes "filter is_configure events = []"
    and "run events (w, pending) = (gates, w', pending')"
  shows "\<exists>p. \<forall>g \<in> set gates. g = Ready \<or> g = Awaits p"
  using assms
proof (induction events arbitrary: w pending gates)
  case Nil
  then show ?case by simp
next
  case (Cons e es)
  have es: "filter is_configure es = []" using Cons.prems(1) by (simp split: if_splits)
  show ?case
  proof (cases "isInitialized w \<or> initPromise w \<noteq> None")
    case True
    from run_closed [OF True Cons.prems] show ?thesis by (cases "initPromise w") auto
  next
    case False
    show ?thesis
    proof (cases e)
      case Operation
      obtain request w1 where call: "initialize_call w = (Awaits (Suc (doInitialize_calls w)), request, w1)"
        and p1: "initPromise w1 = Some (Suc (doInitialize_calls w))"
        using initialize_call_open [of w] False by auto
      obtain hs pending1 where rest: "run es (w1, pending1) = (hs, w', pending')"
        and gates: "gates = Awaits (Suc (doInitialize_calls w)) # hs"
        using Cons.prems(2) Operation call by (auto split: prod.splits)
      have "isInitialized w1 \<or> initPromise w1 \<noteq> None" using p1 by simp
      from run_closed [OF this es rest] show ?thesis using gates p1 by auto
    next
      case (Open_settles opened)
      show ?thesis
      proof (cases pending)
        case Nil
        then have "run es (w, []) = (gates, w', pending')"
          using Cons.prems(2) Open_settles by (auto split: prod.splits)
        then show ?thesis using Cons.IH [OF es] by blast
      next
        case (Cons name rest)
        let ?w1 = "doInitialize_resume opened name w"
        have run1: "run es (?w1, rest) = (gates, w', pending')"
          using Cons.prems(2) Open_settles Cons by (auto split: prod.splits)
        have "isInitialized ?w1 \<or> initPromise ?w1 \<noteq> None" by simp
        from run_closed [OF this es run1] show ?thesis by (cases "initPromise w") auto
      qed
    next
      case (Configure option)
      then show ?thesis using Cons.prems(1) by simp
    qed
  qed
qed

lemma configure_calls [simp]: "doInitialize_calls (snd (configure option w)) = doInitialize_calls w"
  by (simp add: configure_def split: jsval.splits)

lemma run_bound:
  assumes "run events (w, pending) = (gates, w', pending')"
  shows "doInitialize_calls w'
           \<le> doInitialize_calls w + (if isInitialized w \<or> initPromise w \<noteq> None then 0 else 1)
               + length (filter is_configure events)"
  using assms
proof (induction events arbitrary: w pending gates)
  case Nil
  then show ?case by simp
next
  case (Cons e es)
  show ?case
  proof (cases e)
    case Operation
    show ?thesis
    proof (cases "isInitialized w \<or> initPromise w \<noteq> None")
      case True
      obtain g where g: "initialize_call w = (g, None, w)"
        using initialize_call_closed [OF True] by auto
      obtain hs where rest: "run es (w, pending) = (hs, w', pending')"
        using Cons.prems Operation g by (auto split: prod.splits)
      from Cons.IH [OF rest] show ?thesis using Operation by simp
    next
      case False
      obtain request w1 where call: "initialize_call w = (Awaits (Suc (doInitialize_calls w)), request, w1)"
        and p1: "initPromise w1 = Some (Suc (doInitialize_calls w))"
        and c1: "doInitialize_calls w1 = Suc (doInitialize_calls w)"
        using initialize_call_open [of w] False by auto
      obtain hs pending1 where rest: "run es (w1, pending1) = (hs, w', pending')"
        using Cons.prems Operation call by (auto split: prod.splits)
      from Cons.IH [OF rest] show ?thesis using Operation False p1 c1 by simp
    qed
  next
    case (Open_settles opened)
    show ?thesis
    proof (cases pending)
      case Nil
      then have "run es (w, []) = (gates, w', pending')"
        using Cons.prems Open_settles by (auto split: prod.splits)
      from Cons.IH [OF this] show ?thesis using Open_settles by simp
    next
      case (Cons name rest)
      let ?w1 = "doInitialize_resume opened name w"
      have run1: "run es (?w1, rest) = (gates, w', pending')"
        using Cons.prems Open_settles Cons by (auto split: prod.splits)
      from Cons.IH [OF run1] show ?thesis using Open_settles by simp
    qed
  next
    case (Configure option)
    have run1: "run es (snd (configure option w), pending) = (gates, w', pending')"
      using Cons.prems Configure by (auto split: prod.splits)
    from Cons.IH [OF run1] show ?thesis using Configure by (simp split: if_splits)
  qed
qed

lemma falls_back_initialize:
  assumes "falls_back w"
  shows "isInitialized (initialize w)" "useMemoryFallback (initialize w)" "falls_back (initialize w)"
  using assms by (auto simp: falls_back_def initialize_cases split: if_splits)

lemma falls_back_memoryStore [simp]: "falls_back (w\<lparr>memoryStore := m\<rparr>) = falls_back w"
  by (simp add: falls_back_def)

lemma getItem_fallback:
  assumes "falls_back w"
  shows "getItem (JStr k) w
           = (Inr (case map_of (memoryStore w) k of Some v \<Rightarrow> v | None \<Rightarrow> JNull), initialize w)"
  using falls_back_initialize(2) [OF assms] by (simp add: getItem_def Let_def)

lemma setItem_fallback:
  assumes "falls_back w"
  shows "setItem (JStr k) v w
           = (if throws v then (Inl stringify_error, initialize w)
              else (Inr (), (initialize w)\<lparr>memoryStore := AList.update k v (memoryStore w)\<rparr>))"
  using falls_back_initialize(2) [OF assms]
  by (auto simp: setItem_def Let_def json_stringify_def)

lemma removeItem_fallback:
  assumes "falls_back w"
  shows "removeItem (JStr k) w
           = (Inr (), (initialize w)\<lparr>memoryStore := AList.delete k (memoryStore w)\<rparr>)"
  using falls_back_initialize(2) [OF assms] by (simp add: removeItem_def Let_def)

lemma has_fallback:
  assumes "falls_back w"
  shows "has (JStr k) w
           = (Inr ((case map_of (memoryStore w) k of Some v \<Rightarrow> v | None \<Rightarrow> JNull) \<noteq> JNull),
              initialize w)"
  by (simp add: has_def getItem_fallback [OF assms])

lemma enumeration_fallback:
  assumes "falls_back w"
  shows "keys_all w = (Inr (map fst (memoryStore w)), initialize w)"
    and "values_all w = (Inr (map snd (memoryStore w)), initialize w)"
    and "length_all w = (Inr (length (memoryStore w)), initialize w)"
    and "clear w = (Inr (), (initialize w)\<lparr>memoryStore := []\<rparr>)"
  using falls_back_initialize(2) [OF assms]
  by (simp_all add: keys_all_def values_all_def length_all_def clear_def Let_def)

lemma is_string_iff: "is_string v \<longleftrightarrow> (\<exists>s. v = JStr s)"
  by (cases v) (simp_all add: is_string_def)

lemma is_number_iff: "is_number v \<longleftrightarrow> (\<exists>n. v = JNum n)"
  by (cases v) (simp_all add: is_number_def)

lemma not_string_key:
  assumes "\<not> is_string key"
  shows "getItem key w = (Inl key_error, w)" "setItem key v w = (Inl key_error, w)"
    "removeItem key w = (Inl key_error, w)" "has key w = (Inl key_error, w)"
  using assms
  by (cases key; simp add: is_string_def getItem_def setItem_def removeItem_def has_def)+

lemma increment_fallback:
  assumes "falls_back w"
  shows "\<exists>n. increment (JStr k) (JNum a) w
           = (Inr n, (initialize w)\<lparr>memoryStore := AList.update k (JNum n) (memoryStore w)\<rparr>)"
proof -
  have fb: "falls_back (initialize w)" using assms by (rule falls_back_initialize)
  show ?thesis
    by (simp add: increment_def getItem_fallback [OF assms] setItem_fallback [OF fb] Let_def)
qed

lemma increment_not_string:
  assumes "\<not> is_string key"
  shows "increment key (JNum a) w = (Inl key_error, w)"
  by (simp add: increment_def not_string_key [OF assms])

lemma increment_bad_amount:
  assumes "amount \<noteq> JUndefined" and "\<not> is_number amount"
  shows "increment key amount w = (Inl amount_error, w)"
  using assms by (cases amount) (simp_all add: increment_def is_number_def)

lemma increment_default: "increment key JUndefined w = increment key (JNum 1) w"
  by (simp add: increment_def)

lemma passedI:
  "snd out = (initialize w)\<lparr>memoryStore := m\<rparr> \<Longrightarrow> fst out = Inr v \<Longrightarrow> passed c w out"
  by (auto simp: passed_def)

lemma same_memoryStore: "\<exists>m. initialize w = (initialize w)\<lparr>memoryStore := m\<rparr>"
  by (rule exI [of _ "memoryStore (initialize w)"]) simp

lemma passed_same:
  "snd out = initialize w \<Longrightarrow> fst out = Inr v \<Longrightarrow> passed c w out"
  using same_memoryStore [of w] by (auto simp: passed_def)

lemma passed_rejected:
  "snd out = initialize w \<Longrightarrow> fst out = Inl stringify_error \<Longrightarrow> \<not> well_formed c
     \<Longrightarrow> passed c w out"
  using same_memoryStore [of w] by (auto simp: passed_def)

lemma exec_shape:
  assumes "falls_back w"
  shows "stopped c w (exec c w) \<or> passed c w (exec c w)"
proof (cases c)
  case (GetItem k)
  show ?thesis
  proof (cases "is_string k")
    case True
    then obtain s where "k = JStr s" by (auto simp: is_string_iff)
    then show ?thesis using GetItem by (simp add: getItem_fallback [OF assms] passed_same)
  next
    case False
    then show ?thesis using GetItem by (simp add: not_string_key stopped_def)
  qed
next
  case (SetItem k v)
  show ?thesis
  proof (cases "is_string k")
    case True
    then obtain s where "k = JStr s" by (auto simp: is_string_iff)
    then show ?thesis
      using SetItem
      by (cases "throws v")
         (auto simp: setItem_fallback [OF assms] reply_def intro: passedI passed_rejected)
  next
    case False
    then show ?thesis using SetItem by (simp add: not_string_key stopped_def reply_def)
  qed
next
  case (RemoveItem k)
  show ?thesis
  proof (cases "is_string k")
    case True
    then obtain s where "k = JStr s" by (auto simp: is_string_iff)
    then show ?thesis
      using RemoveItem by (auto simp: removeItem_fallback [OF assms] reply_def passed_def)
  next
    case False
    then show ?thesis using RemoveItem by (simp add: not_string_key stopped_def reply_def)
  qed
next
  case (Nullify k)
  show ?thesis
  proof (cases "is_string k")
    case True
    then obtain s where "k = JStr s" by (auto simp: is_string_iff)
    then show ?thesis
      using Nullify by (auto simp: nullify_def setItem_fallback [OF assms] reply_def passed_def)
  next
    case False
    then show ?thesis using Nullify by (simp add: nullify_def not_string_key stopped_def reply_def)
  qed
next
  case (Increment k a)
  show ?thesis
  proof (cases "a = JUndefined \<or> is_number a")
    case False
    then show ?thesis
      using Increment by (simp add: increment_bad_amount stopped_def reply_def)
  next
    case True
    then obtain n where n: "increment k a w = increment k (JNum n) w"
      by (auto simp: increment_default is_number_iff)
    show ?thesis
    proof (cases "is_string k")
      case str: True
      then obtain s where s: "k = JStr s" by (auto simp: is_string_iff)
      obtain r where "increment (JStr s) (JNum n) w
           = (Inr r, (initialize w)\<lparr>memoryStore := AList.update s (JNum r) (memoryStore w)\<rparr>)"
        using increment_fallback [OF assms, of s n] by auto
      then show ?thesis using Increment n s by (auto simp: reply_def passed_def)
    next
      case False
      then show ?thesis
        using Increment n by (simp add: increment_not_string stopped_def reply_def)
    qed
  qed
next
  case (Decrement k a)
  show ?thesis
  proof (cases "is_string k")
    case True
    then obtain s where s: "k = JStr s" by (auto simp: is_string_iff)
    obtain r where "increment (JStr s) (JNum (- (case a of None \<Rightarrow> 1 | Some a \<Rightarrow> a))) w
         = (Inr r, (initialize w)\<lparr>memoryStore := AList.update s (JNum r) (memoryStore w)\<rparr>)"
      using increment_fallback [OF assms, of s] by blast
    then show ?thesis using Decrement s by (auto simp: decrement_def reply_def passed_def)
  next
    case False
    then show ?thesis
      using Decrement by (simp add: decrement_def increment_not_string stopped_def reply_def)
  qed
next
  case (Has k)
  show ?thesis
  proof (cases "is_string k")
    case True
    then obtain s where "k = JStr s" by (auto simp: is_string_iff)
    then show ?thesis
      using Has by (simp add: has_fallback [OF assms] reply_def passed_same)
  next
    case False
    then show ?thesis using Has by (simp add: not_string_key stopped_def reply_def)
  qed
next
  case Keys
  then show ?thesis by (simp add: enumeration_fallback [OF assms] reply_def passed_same)
next
  case Values
  then show ?thesis by (simp add: enumeration_fallback [OF assms] reply_def passed_same)
next
  case Length
  then show ?thesis by (simp add: enumeration_fallback [OF assms] reply_def passed_same)
next
  case Clear
  then show ?thesis by (auto simp: enumeration_fallback [OF assms] reply_def passed_def)
qed

lemma exec_fallback:
  assumes "falls_back w" and "exec c w = (r, w1)"
  shows "falls_back w1" and "databases w1 = databases w"
    and "isInitialized w \<Longrightarrow> isInitialized w1"
    and "well_formed c \<Longrightarrow> isInitialized w1 \<and> (\<exists>v. r = Inr v)"
    and "case r of Inl e \<Rightarrow> argument_error e | Inr v \<Rightarrow> True"
proof -
  note fb = falls_back_initialize [OF assms(1)]
  from exec_shape [OF assms(1), of c] assms(2)
  consider (stop) "w1 = w" "\<not> well_formed c" "r = Inl key_error \<or> r = Inl amount_error"
    | (pass) m where "w1 = (initialize w)\<lparr>memoryStore := m\<rparr>"
        "(\<exists>v. r = Inr v) \<or> (r = Inl stringify_error \<and> \<not> well_formed c)"
    by (auto simp: stopped_def passed_def)
  then have "falls_back w1 \<and> databases w1 = databases w
       \<and> (isInitialized w \<longrightarrow> isInitialized w1)
       \<and> (well_formed c \<longrightarrow> isInitialized w1 \<and> (\<exists>v. r = Inr v))
       \<and> (case r of Inl e \<Rightarrow> argument_error e | Inr v \<Rightarrow> True)"
  proof cases
    case stop
    then show ?thesis using assms(1) by (auto simp: argument_error_def)
  next
    case pass
    then show ?thesis using fb by (auto simp: argument_error_def)
  qed
  then show "falls_back w1" and "databases w1 = databases w"
    and "isInitialized w \<Longrightarrow> isInitialized w1"
    and "well_formed c \<Longrightarrow> isInitialized w1 \<and> (\<exists>v. r = Inr v)"
    and "case r of Inl e \<Rightarrow> argument_error e | Inr v \<Rightarrow> True"
    by simp_all
qed

lemma exec_all_fallback:
  assumes "falls_back w" and "exec_all cs w = (rs, w1)"
  shows "falls_back w1 \<and> databases w1 = databases w
       \<and> (isInitialized w \<longrightarrow> isInitialized w1)
       \<and> (cs \<noteq> [] \<and> well_formed (hd cs) \<longrightarrow> isInitialized w1)
       \<and> (\<forall>r \<in> set rs. case r of Inl e \<Rightarrow> argument_error e | Inr v \<Rightarrow> True)
       \<and> ((\<forall>c \<in> set cs. well_formed c) \<longrightarrow> (\<forall>r \<in> set rs. \<exists>v. r = Inr v))"
  using assms
proof (induction cs arbitrary: w rs)
  case Nil
  then show ?case by simp
next
  case (Cons c cs)
  obtain r w2 where first: "exec c w = (r, w2)" by (cases "exec c w")
  obtain rs' where rest: "exec_all cs w2 = (rs', w1)" and rs: "rs = r # rs'"
    using Cons.prems(2) first by (auto split: prod.splits)
  note one = exec_fallback [OF Cons.prems(1) first]
  from Cons.IH [OF one(1) rest] one(2-5) rs show ?case by auto
qed

subsection \<open>Reconfiguration and enumeration\<close>








subsection \<open>Consistency is kept\<close>

text \<open>
  The states that \<open>constructor\<close>, \<open>configure\<close> and the data operations produce, one
  operation completing before the next starts, are consistent.
\<close>

lemma consistent_configure: "consistent w \<Longrightarrow> consistent (snd (configure option w))"
  by (auto simp: configure_def consistent_def split: jsval.splits)

lemma getItem_consistent: "consistent w \<Longrightarrow> consistent (snd (getItem key w))"
  using consistent_initialize [of w]
  by (auto simp: getItem_def Let_def split: jsval.splits option.splits)

lemma setItem_consistent: "consistent w \<Longrightarrow> consistent (snd (setItem key v w))"
  using consistent_initialize [of w]
  by (auto simp: setItem_def Let_def split: jsval.splits option.splits stringified.splits)

lemma removeItem_consistent: "consistent w \<Longrightarrow> consistent (snd (removeItem key w))"
  using consistent_initialize [of w]
  by (auto simp: removeItem_def Let_def split: jsval.splits option.splits)

lemma increment_consistent: "consistent w \<Longrightarrow> consistent (snd (increment key amount w))"
proof -
  assume c: "consistent w"
  have num: "consistent (snd (increment key (JNum a) w))" for a
  proof (cases "getItem key w")
    case (Pair r w1)
    then have c1: "consistent w1" using getItem_consistent [OF c, of key] by simp
    show ?thesis
    proof (cases r)
      case (Inl e)
      then show ?thesis using Pair c1 by (simp add: increment_def)
    next
      case (Inr current)
      let ?new = "(case current of JNum n \<Rightarrow> n | _ \<Rightarrow> 0) + a"
      have "consistent (snd (setItem key (JNum ?new) w1))" using c1 by (rule setItem_consistent)
      then show ?thesis
        using Pair Inr by (cases "setItem key (JNum ?new) w1") (auto simp: increment_def Let_def split: sum.splits)
    qed
  qed
  show ?thesis using c num by (cases amount) (auto simp: increment_def)
qed

lemma has_consistent: "consistent w \<Longrightarrow> consistent (snd (has key w))"
  using getItem_consistent [of w key]
  by (auto simp: has_def split: jsval.splits prod.splits sum.splits)

lemma enumeration_consistent:
  assumes "consistent w"
  shows "consistent (snd (keys_all w))" "consistent (snd (values_all w))"
    "consistent (snd (length_all w))" "consistent (snd (clear w))"
  using consistent_initialize [OF assms]
  by (auto simp: keys_all_def values_all_def length_all_def clear_def Let_def split: option.splits)

lemma exec_consistent: "consistent w \<Longrightarrow> consistent (snd (exec c w))"
  by (cases c)
     (simp_all add: reply_def getItem_consistent setItem_consistent removeItem_consistent
        nullify_def increment_consistent decrement_def has_consistent enumeration_consistent)

lemma exec_all_consistent: "consistent w \<Longrightarrow> consistent (snd (exec_all cs w))"
proof (induction cs arbitrary: w)
  case Nil
  then show ?case by simp
next
  case (Cons c cs)
  from Cons.IH [OF exec_consistent [OF Cons.prems, of c]] show ?case
    by (cases "exec c w"; cases "exec_all cs (snd (exec c w))") auto
qed

section \<open>Round trips\<close>



text \<open>
  C10. The text that \<open>JSON.stringify\<close> returns is never the reserved marker, and the text
  of a string starts with a quotation mark; so when \<open>set(k, "__TINY_IDB_UNDEFINED__")\<close>
  has succeeded, \<open>get(k)\<close> returns that string, not \<open>undefined\<close>.
\<close>

theorem marker_string_round_trip:
  "json_stringify v \<noteq> Text undefined_marker
   \<and> (\<exists>t. json_stringify (JStr s) = Text (CHR 0x22 # t))
   \<and> (setItem (JStr k) (JStr undefined_marker) w = (Inr (), w1)
        \<longrightarrow> getItem (JStr k) w1 = (Inr (JStr undefined_marker), w1))"
proof -
  have "json_stringify (JStr s) = Text (CHR 0x22 # concat (map quote_char s) @ [CHR 0x22])"
    by (simp add: json_stringify_def quote_def)
  then show ?thesis
    using stringify_not_marker [of v] setItem_then_getItem [of k "JStr undefined_marker" w w1]
    by auto
qed

theorem marker_string_round_trip_witness:
  "fst (setItem (JStr ''k'') (JStr undefined_marker) (constructor True False [])) = Inr ()
   \<and> fst (getItem (JStr ''k'')
        (snd (setItem (JStr ''k'') (JStr undefined_marker) (constructor True False []))))
       = Inr (JStr ''__TINY_IDB_UNDEFINED__'')"
proof -
  let ?p = "constructor True False []"
  have set_p: "fst (setItem (JStr ''k'') (JStr undefined_marker) ?p) = Inr ()" by code_simp
  then show ?thesis
    using marker_string_round_trip
      [of JNull "[]" "''k''" ?p "snd (setItem (JStr ''k'') (JStr undefined_marker) ?p)"]
    by (simp add: prod_eq_iff undefined_marker_def)
qed

section \<open>Initialization\<close>

text \<open>
  C4. An epoch is a run without \<open>configure\<close>. From any state (in particular right after
  \<open>configure\<close> or construction) and with any open requests still in flight, whatever the
  sequence of operations reaching the gate, of open requests settling and of calls of
  \<open>configure\<close>: \<open>_doInitialize\<close> is invoked at most once more than \<open>configure\<close> is
  called, so at most once in an epoch, and not at all in an epoch that starts initialized
  or with an initialization promise; within an epoch every operation that is made to wait
  is handed the same promise; and in an initialized state the gate returns at once and
  leaves the state as it is.
\<close>

theorem initialization_at_most_once:
  "(run events (w, pending) = (gates, w', pending')
      \<longrightarrow> doInitialize_calls w'
             \<le> doInitialize_calls w + 1 + length (filter is_configure events)
          \<and> (filter is_configure events = []
                \<longrightarrow> (\<exists>p. \<forall>g \<in> set gates. g = Ready \<or> g = Awaits p)
                    \<and> (isInitialized w \<or> initPromise w \<noteq> None
                          \<longrightarrow> doInitialize_calls w' = doInitialize_calls w)))
   \<and> (isInitialized w \<longrightarrow> initialize_call w = (Ready, None, w))"
proof -
  have "isInitialized w \<longrightarrow> initialize_call w = (Ready, None, w)"
    by (simp add: initialize_call_def)
  moreover have "doInitialize_calls w'
             \<le> doInitialize_calls w + 1 + length (filter is_configure events)"
    if "run events (w, pending) = (gates, w', pending')"
    using run_bound [OF that] by (simp split: if_splits)
  ultimately show ?thesis
    using run_epoch [of events w pending gates w' pending']
      run_closed [of w events pending gates w' pending']
    by blast
qed

theorem initialization_at_most_once_witness:
  "fst (run [Operation, Operation, Open_settles False, Operation] (constructor True False [], []))
     = [Awaits 1, Awaits 1, Ready]
   \<and> doInitialize_calls
        (fst (snd (run [Operation, Operation, Open_settles False, Operation]
                     (constructor True False [], [])))) = 1
   \<and> isInitialized
        (fst (snd (run [Operation, Operation, Open_settles False, Operation]
                     (constructor True False [], []))))
   \<and> initialize_call
        (fst (snd (run [Operation, Operation, Open_settles False, Operation]
                     (constructor True False [], []))))
      = (Ready, None,
         fst (snd (run [Operation, Operation, Open_settles False, Operation]
                     (constructor True False [], []))))
   \<and> doInitialize_calls
        (fst (snd (run [Operation, Configure (JStr ''other''), Operation, Operation]
                     (constructor False False [], [])))) = 2"
proof -
  let ?es = "[Operation, Operation, Open_settles False, Operation]"
  let ?r = "run ?es (constructor True False [], [])"
  let ?fs = "[Operation, Configure (JStr ''other''), Operation, Operation]"
  let ?q = "run ?fs (constructor False False [], [])"
  have gates: "fst ?r = [Awaits 1, Awaits 1, Ready]" by code_simp
  have calls: "doInitialize_calls (fst (snd ?r)) = 1" by code_simp
  have init: "isInitialized (fst (snd ?r))" by code_simp
  have none: "filter is_configure ?es = []" by simp
  have two: "doInitialize_calls (fst (snd ?q)) = 2" by code_simp
  have "?r = (fst ?r, fst (snd ?r), snd (snd ?r))" by simp
  then have "\<exists>p. \<forall>g \<in> set (fst ?r). g = Ready \<or> g = Awaits p"
    using initialization_at_most_once
      [of ?es "constructor True False []" "[]" "fst ?r" "fst (snd ?r)" "snd (snd ?r)"] none
    by blast
  moreover have "initialize_call (fst (snd ?r)) = (Ready, None, fst (snd ?r))"
    using initialization_at_most_once [of "[]" "fst (snd ?r)" "[]" "[]" "fst (snd ?r)" "[]"] init
    by blast
  moreover have "?q = (fst ?q, fst (snd ?q), snd (snd ?q))" by simp
  then have "doInitialize_calls (fst (snd ?q))
               \<le> doInitialize_calls (constructor False False []) + 1 + length (filter is_configure ?fs)"
    using initialization_at_most_once
      [of ?fs "constructor False False []" "[]" "fst ?q" "fst (snd ?q)" "snd (snd ?q)"]
    by blast
  ultimately show ?thesis using gates calls init two by simp
qed

text \<open>
  C5. In a state that has not been initialized, on a platform without IndexedDB or on
  which opening the database fails, the gate completes with the volatile backend active.
  For every sequence of data operations run from there (\<open>getItem\<close>, \<open>setItem\<close>,
  \<open>removeItem\<close>, \<open>nullify\<close>, \<open>increment\<close>, \<open>decrement\<close>, \<open>has\<close>, \<open>keys\<close>, \<open>values\<close>,
  \<open>length\<close>, \<open>clear\<close>): no reply is an error other than
  an argument error (a key that is not a string, an amount that is not a number, a value
  that cannot be serialized), so the failure to open is never reported; when every call
  is well-formed every reply is a success; the persistent stores are not touched; and
  after a first well-formed call the helper is initialized on the volatile backend.
\<close>

theorem open_failure_falls_back:
  assumes "\<not> indexedDB_available w \<or> open_fails w"
    and "\<not> isInitialized w" and "initPromise w = None"
  shows "isInitialized (initialize w) \<and> useMemoryFallback (initialize w)
       \<and> (exec_all cs w = (rs, w1)
            \<longrightarrow> (\<forall>r \<in> set rs. case r of Inl e \<Rightarrow> argument_error e | Inr v \<Rightarrow> True)
                \<and> ((\<forall>c \<in> set cs. well_formed c) \<longrightarrow> (\<forall>r \<in> set rs. \<exists>v. r = Inr v))
                \<and> databases w1 = databases w
                \<and> (cs \<noteq> [] \<and> well_formed (hd cs) \<longrightarrow> isInitialized w1 \<and> useMemoryFallback w1))"
proof -
  have fb: "falls_back w" using assms by (simp add: falls_back_def)
  have "isInitialized w1 \<longrightarrow> useMemoryFallback w1" if "exec_all cs w = (rs, w1)"
    using exec_all_fallback [OF fb that] by (simp add: falls_back_def)
  then show ?thesis
    using falls_back_initialize [OF fb] exec_all_fallback [OF fb, of cs rs w1] by blast
qed

theorem open_failure_falls_back_witness:
  "open_fails (constructor True True [])
   \<and> \<not> isInitialized (constructor True True []) \<and> initPromise (constructor True True []) = None
   \<and> list_all well_formed [SetItem (JStr ''a'') (JNum 1), Increment (JStr ''a'') JUndefined,
                            GetItem (JStr ''a''), Has (JStr ''b''), Keys]
   \<and> fst (exec_all [SetItem (JStr ''a'') (JNum 1), Increment (JStr ''a'') JUndefined,
                     GetItem (JStr ''a''), Has (JStr ''b''), Keys] (constructor True True []))
       = [Inr JUndefined, Inr (JNum 2), Inr (JNum 2), Inr (JBool False), Inr (JArr [JStr ''a''])]
   \<and> useMemoryFallback
        (snd (exec_all [SetItem (JStr ''a'') (JNum 1), Increment (JStr ''a'') JUndefined,
                        GetItem (JStr ''a''), Has (JStr ''b''), Keys] (constructor True True [])))
   \<and> databases
        (snd (exec_all [SetItem (JStr ''a'') (JNum 1), Increment (JStr ''a'') JUndefined,
                        GetItem (JStr ''a''), Has (JStr ''b''), Keys] (constructor True True [])))
       = []"
proof -
  let ?w = "constructor True True []"
  let ?cs = "[SetItem (JStr ''a'') (JNum 1), Increment (JStr ''a'') JUndefined,
              GetItem (JStr ''a''), Has (JStr ''b''), Keys]"
  have fails: "open_fails ?w" by code_simp
  then have pre: "\<not> indexedDB_available ?w \<or> open_fails ?w" by simp
  have fresh: "\<not> isInitialized ?w" "initPromise ?w = None" by code_simp+
  have all_wf: "list_all well_formed ?cs" by code_simp
  then have wf: "\<forall>c \<in> set ?cs. well_formed c" by (simp only: list_all_iff)
  have rs: "fst (exec_all ?cs ?w)
       = [Inr JUndefined, Inr (JNum 2), Inr (JNum 2), Inr (JBool False), Inr (JArr [JStr ''a''])]"
    by code_simp
  have dbs: "databases ?w = []" by code_simp
  have "exec_all ?cs ?w = (fst (exec_all ?cs ?w), snd (exec_all ?cs ?w))" by simp
  then have "databases (snd (exec_all ?cs ?w)) = databases ?w
       \<and> useMemoryFallback (snd (exec_all ?cs ?w))"
    using open_failure_falls_back [OF pre fresh, of ?cs "fst (exec_all ?cs ?w)" "snd (exec_all ?cs ?w)"] wf
    by simp
  then show ?thesis using fails fresh all_wf rs dbs by simp
qed

section \<open>Presence and absence of a key\<close>

text \<open>
  What \<open>has\<close> does: it answers whether \<open>get\<close> returned something other than \<open>null\<close>, so
  after a successful \<open>remove(k)\<close> it answers \<open>false\<close>.
\<close>

lemma has_after_removeItem:
  assumes "removeItem (JStr k) w = (Inr (), w1)"
  shows "has (JStr k) w1 = (Inr False, w1)"
proof (cases "useMemoryFallback (initialize w)")
  case True
  with assms have "w1 = (initialize w)\<lparr>memoryStore := AList.delete k (memoryStore w)\<rparr>"
    by (auto simp: removeItem_def Let_def)
  with True show ?thesis by (simp add: has_def getItem_def Let_def delete_conv')
next
  case False
  from assms False obtain name where name: "db (initialize w) = Some name"
    by (auto simp: removeItem_def Let_def split: option.splits)
  from assms False name
  have "w1 = store_delete name k (initialize w)" "\<not> request_fails w"
    by (auto simp: removeItem_def Let_def split: if_splits)
  with False name show ?thesis by (simp add: has_def getItem_def Let_def delete_conv')
qed

lemma has_iff_getItem_not_null:
  "getItem (JStr k) w = (Inr v, w1) \<Longrightarrow> has (JStr k) w = (Inr (v \<noteq> JNull), w1)"
  by (simp add: has_def)

text \<open>
  C1, at the point where the code departs from it. On a fresh helper, on any platform,
  \<open>set(k, null)\<close> succeeds and \<open>keys()\<close> then lists \<open>k\<close>, yet \<open>has(k)\<close> returns \<open>false\<close>:
  \<open>has\<close> compares the result of \<open>getItem\<close> with \<open>null\<close>, and \<open>getItem\<close> returns the stored
  \<open>null\<close>.
\<close>

theorem has_after_set_null:
  "fst (setItem (JStr k) JNull (constructor available fails dbs)) = Inr ()
   \<and> fst (has (JStr k) (snd (setItem (JStr k) JNull (constructor available fails dbs)))) = Inr False
   \<and> (\<exists>ks. fst (keys_all (snd (setItem (JStr k) JNull (constructor available fails dbs)))) = Inr ks
           \<and> k \<in> set ks)"
proof -
  let ?w = "constructor available fails dbs"
  obtain w1 where set: "setItem (JStr k) JNull ?w = (Inr (), w1)"
    using setItem_succeeds [of ?w JNull k] constructor_consistent constructor_request_ok
    by auto
  have "getItem (JStr k) w1 = (Inr JNull, w1)"
    using setItem_then_getItem [OF set] by simp
  then have "has (JStr k) w1 = (Inr False, w1)" by (simp add: has_def)
  moreover obtain ks where "keys_all w1 = (Inr ks, w1)" "k \<in> set ks"
    using keys_after_setItem [OF set] by auto
  ultimately show ?thesis using set by simp
qed

text \<open>
  C3 as stated fails: on either backend \<open>get\<close> of a key that was never set and \<open>get\<close> of
  a key that was set to \<open>null\<close> return the same \<open>null\<close>.
\<close>

theorem get_null_not_distinguished:
  "fst (getItem (JStr ''k'') (constructor True False [])) = Inr JNull
   \<and> fst (setItem (JStr ''k'') JNull (constructor True False [])) = Inr ()
   \<and> fst (getItem (JStr ''k'') (snd (setItem (JStr ''k'') JNull (constructor True False []))))
       = Inr JNull
   \<and> fst (getItem (JStr ''k'') (constructor False False [])) = Inr JNull
   \<and> fst (setItem (JStr ''k'') JNull (constructor False False [])) = Inr ()
   \<and> fst (getItem (JStr ''k'') (snd (setItem (JStr ''k'') JNull (constructor False False []))))
       = Inr JNull"
  by code_simp

text \<open>
  C3, amended. When the active backend holds no entry under \<open>k\<close> (and the storage engine
  does not fail), \<open>get(k)\<close> returns \<open>null\<close>, the "not found" result. After a successful
  \<open>set(k, undefined)\<close> it returns \<open>undefined\<close>, which differs from that result; after a
  successful \<open>set(k, null)\<close> it returns \<open>null\<close>, which does not.
\<close>

theorem get_absent_null_undefined:
  "(consistent w \<and> \<not> request_fails w \<and> \<not> present k (initialize w)
      \<longrightarrow> fst (getItem (JStr k) w) = Inr JNull)
   \<and> (setItem (JStr k) JUndefined w = (Inr (), w1)
      \<longrightarrow> fst (getItem (JStr k) w1) = Inr JUndefined \<and> JUndefined \<noteq> JNull)
   \<and> (setItem (JStr k) JNull w = (Inr (), w1) \<longrightarrow> fst (getItem (JStr k) w1) = Inr JNull)"
  using getItem_absent [of w k] setItem_then_getItem [of k JUndefined w w1]
    setItem_then_getItem [of k JNull w w1]
  by auto

theorem get_absent_null_undefined_witness:
  "consistent (constructor True False []) \<and> \<not> request_fails (constructor True False [])
   \<and> \<not> present ''k'' (initialize (constructor True False []))
   \<and> fst (getItem (JStr ''k'') (constructor True False [])) = Inr JNull
   \<and> fst (setItem (JStr ''k'') JUndefined (constructor True False [])) = Inr ()
   \<and> fst (getItem (JStr ''k'') (snd (setItem (JStr ''k'') JUndefined (constructor True False []))))
       = Inr JUndefined
   \<and> fst (setItem (JStr ''k'') JNull (constructor True False [])) = Inr ()
   \<and> fst (getItem (JStr ''k'') (snd (setItem (JStr ''k'') JNull (constructor True False []))))
       = Inr JNull"
proof -
  let ?p = "constructor True False []"
  have pre: "consistent ?p" "\<not> request_fails ?p" "\<not> present ''k'' (initialize ?p)"
    by code_simp+
  have set_u: "fst (setItem (JStr ''k'') JUndefined ?p) = Inr ()" by code_simp
  have set_n: "fst (setItem (JStr ''k'') JNull ?p) = Inr ()" by code_simp
  have "fst (getItem (JStr ''k'') ?p) = Inr JNull"
    using get_absent_null_undefined [of ?p "''k''"] pre by simp
  moreover have "fst (getItem (JStr ''k'') (snd (setItem (JStr ''k'') JUndefined ?p))) = Inr JUndefined"
    using get_absent_null_undefined [of ?p "''k''" "snd (setItem (JStr ''k'') JUndefined ?p)"] set_u
    by (simp add: prod_eq_iff)
  moreover have "fst (getItem (JStr ''k'') (snd (setItem (JStr ''k'') JNull ?p))) = Inr JNull"
    using get_absent_null_undefined [of ?p "''k''" "snd (setItem (JStr ''k'') JNull ?p)"] set_n
    by (simp add: prod_eq_iff)
  ultimately show ?thesis using pre set_u set_n by simp
qed

section \<open>Values that cannot be serialized\<close>

text \<open>
  C6. When \<open>JSON.stringify\<close> throws on \<open>v\<close> (a cycle or a BigInt anywhere inside),
  \<open>set(k, v)\<close> on a consistent state fails with the helper's stringify error, the same
  error value on both backends; the state it leaves is the one that the initialization
  gate alone produces, with the volatile mapping and every object store unchanged, so
  \<open>get(k)\<close> answers as it did before.
\<close>

theorem unserializable_set_rejected:
  assumes "throws v" and "consistent w"
  shows "setItem (JStr k) v w = (Inl stringify_error, initialize w)
       \<and> memoryStore (initialize w) = memoryStore w
       \<and> databases (initialize w) = databases w
       \<and> getItem (JStr k) (initialize w) = getItem (JStr k) w"
  using setItem_unserializable [OF assms] getItem_initialize [of k w] by simp

theorem unserializable_set_rejected_witness:
  "throws (JObj [(''name'', JStr ''test''), (''self'', JCircular)])
   \<and> consistent (snd (setItem (JStr ''k'') (JNum 1) (constructor True False [])))
   \<and> consistent (snd (setItem (JStr ''k'') (JNum 1) (constructor False False [])))
   \<and> fst (setItem (JStr ''k'') (JObj [(''name'', JStr ''test''), (''self'', JCircular)])
            (snd (setItem (JStr ''k'') (JNum 1) (constructor True False []))))
       = Inl (Error ''JSON stringify error'' (Some JSON_PARSE_ERROR))
   \<and> fst (setItem (JStr ''k'') (JObj [(''name'', JStr ''test''), (''self'', JCircular)])
            (snd (setItem (JStr ''k'') (JNum 1) (constructor False False []))))
       = Inl (Error ''JSON stringify error'' (Some JSON_PARSE_ERROR))
   \<and> fst (getItem (JStr ''k'')
        (snd (setItem (JStr ''k'') (JObj [(''name'', JStr ''test''), (''self'', JCircular)])
            (snd (setItem (JStr ''k'') (JNum 1) (constructor True False []))))))
       = Inr (JNum 1)"
proof -
  let ?v = "JObj [(''name'', JStr ''test''), (''self'', JCircular)]"
  let ?p = "snd (setItem (JStr ''k'') (JNum 1) (constructor True False []))"
  let ?m = "snd (setItem (JStr ''k'') (JNum 1) (constructor False False []))"
  have t: "throws ?v" by code_simp
  have cp: "consistent ?p" and cm: "consistent ?m" by code_simp+
  have before: "fst (getItem (JStr ''k'') ?p) = Inr (JNum 1)" by code_simp
  have "fst (setItem (JStr ''k'') ?v ?p) = Inl stringify_error"
    and "fst (getItem (JStr ''k'') (snd (setItem (JStr ''k'') ?v ?p))) = Inr (JNum 1)"
    using unserializable_set_rejected [OF t cp, of "''k''"] before by simp_all
  moreover have "fst (setItem (JStr ''k'') ?v ?m) = Inl stringify_error"
    using unserializable_set_rejected [OF t cm, of "''k''"] by simp
  ultimately show ?thesis using t cp cm by (simp add: stringify_error_def)
qed

section \<open>Increment and decrement\<close>



section \<open>Reconfiguration\<close>




text \<open>
  What the amended statement leaves out: \<open>configure\<close> does not stop an initialization
  that is in flight. When the open request of an operation issued under \<open>A\<close> settles after
  \<open>configure\<close> has switched to \<open>B\<close>, the connection to \<open>A\<close> is installed and the helper
  counts as initialized, under the configuration \<open>B\<close>.
\<close>

lemma configure_while_opening:
  "dbName (fst (snd (run [Operation, Configure (JStr ''B''), Open_settles True]
                       (snd (configure (JStr ''A'') (constructor True False [])), [])))) = ''B''
   \<and> db (fst (snd (run [Operation, Configure (JStr ''B''), Open_settles True]
                       (snd (configure (JStr ''A'') (constructor True False [])), [])))) = Some ''A''
   \<and> isInitialized (fst (snd (run [Operation, Configure (JStr ''B''), Open_settles True]
                       (snd (configure (JStr ''A'') (constructor True False [])), []))))"
  by code_simp

section \<open>Enumerating the values\<close>



end
